theory Spec2Isabelle
  imports Complex_Main
begin

section \<open>Minesweeter: the game model of src/models/game.js\<close>

subsection \<open>Values\<close>

text \<open>
  The enumerations \<open>gameStates\<close>, \<open>tileBombStates\<close> and \<open>tileUserStates\<close> are imported
  by game.js from ./values; the code compares their members with \<open>===\<close> only, so each
  is a datatype of distinct constants.
\<close>

datatype tileBombState = blank | bomb

datatype tileUserState = covered | "open" | flag | hitBomb

datatype gameState = fresh | playing | beginningMove | gameOver | winner | restarting

record tile =
  bombState :: tileBombState
  userState :: tileUserState

type_synonym board = "tile list list"

type_synonym position = "int \<times> int"

text \<open>A thrown JavaScript exception is a value of this type.\<close>

datatype error = UnknownDifficulty string | TypeError

record settings =
  columns :: int
  rows :: int
  bombOdds :: rat

record props =
  difficultyID :: string
  settings :: "settings option"

record snapshot =
  gameState :: gameState
  columns :: int
  rows :: int
  board :: board
  proximities :: "int list list"
  bombsCount :: int
  uncoveredCount :: int
  flagsCount :: int
  movesCount :: int
  startedAt :: "int option"
  finishedAt :: "int option"

text \<open>
  What game.js takes from outside the file: the table \<open>difficulties\<close> (./values),
  \<open>countProximities\<close> and \<open>allDirections\<close> (./calculations), lodash's \<open>shuffle\<close> and the
  clock \<open>Date.now\<close>. None of them is in the repository's sources, so they are parameters
  of the model. \<open>shuffle k\<close> is the result of the \<open>k\<close>-th call of the random shuffle made
  while one handler runs.
\<close>

record environment =
  difficulties :: "string \<Rightarrow> settings option"
  shuffle :: "nat \<Rightarrow> bool list \<Rightarrow> bool list"
  countProximities :: "board \<Rightarrow> int list list"
  allDirections :: "(position \<Rightarrow> position) list"
  now :: int

subsection \<open>JavaScript arrays and numbers\<close>

text \<open>\<open>xs[i]\<close>: \<open>None\<close> is JavaScript's \<open>undefined\<close>, read at an index that is not there.\<close>

definition nth_opt :: "'a list \<Rightarrow> int \<Rightarrow> 'a option" where
  "nth_opt xs i = (if 0 \<le> i \<and> i < int (length xs) then Some (xs ! nat i) else None)"

text \<open>
  \<open>grid[r][c]\<close>, where reading a property of \<open>undefined\<close> throws: the outer \<open>Inl TypeError\<close>
  is the missing row, the inner \<open>None\<close> the missing cell of a row that is there.
\<close>

definition at2 :: "'a list list \<Rightarrow> position \<Rightarrow> error + 'a option" where
  "at2 grid p = (case nth_opt grid (fst p) of None \<Rightarrow> Inl TypeError | Some row \<Rightarrow> Inr (nth_opt row (snd p)))"

text \<open>\<open>grid[r][c].field\<close>: reading a field of a cell that is not there throws as well.\<close>

definition getTile :: "board \<Rightarrow> position \<Rightarrow> error + tile" where
  "getTile b p = (case at2 b p of Inl e \<Rightarrow> Inl e | Inr None \<Rightarrow> Inl TypeError | Inr (Some item) \<Rightarrow> Inr item)"

text \<open>\<open>grid[r][c] = v\<close>, used by the code only after \<open>grid[r][c]\<close> was read as an object.\<close>

definition set2 :: "'a list list \<Rightarrow> position \<Rightarrow> 'a \<Rightarrow> 'a list list" where
  "set2 grid p v = grid[nat (fst p) := (grid ! nat (fst p))[nat (snd p) := v]]"

text \<open>lodash's \<open>times(n, f)\<close>: \<open>f\<close> at 0, ..., n - 1, and the empty array when \<open>n < 1\<close>.\<close>

definition times :: "int \<Rightarrow> (int \<Rightarrow> 'a) \<Rightarrow> 'a list" where
  "times n f = map (\<lambda>i. f (int i)) [0..<nat n]"

text \<open>
  \<open>Math.round\<close> rounds to the nearest integer, halves upwards. The numbers are the exact
  rationals, not IEEE doubles: \<open>bombOdds * tilesCount\<close> is the exact product here, and the
  product rounded to a double in the code (0.58 * 25 rounds to 14 in the code and to 15
  here). The two agree when the exact product is a double, as it is wherever \<open>restart\<close>
  is evaluated below.
\<close>

definition mathRound :: "rat \<Rightarrow> int" where
  "mathRound x = \<lfloor>x + 1 / 2\<rfloor>"

subsection \<open>restart\<close>

definition restart :: "environment \<Rightarrow> nat \<Rightarrow> props \<Rightarrow> error + snapshot" where
  "restart env k ps =
    (case (case props.settings ps of None \<Rightarrow> difficulties env (difficultyID ps) | Some st \<Rightarrow> Some st) of
       None \<Rightarrow> Inl (UnknownDifficulty (difficultyID ps))
     | Some st \<Rightarrow>
        (let columns = settings.columns st; rows = settings.rows st;
             tilesCount = columns * rows;
             bombsCount = mathRound (bombOdds st * of_int tilesCount);
             shuffledBombs = shuffle env k
               (times bombsCount (\<lambda>_. True) @ times (tilesCount - bombsCount) (\<lambda>_. False));
             board = times rows (\<lambda>rowIndex.
               times columns (\<lambda>columnIndex.
                 (let hasBomb = (nth_opt shuffledBombs (rowIndex * rows + columnIndex) = Some True)
                  in \<lparr>bombState = (if hasBomb then bomb else blank), userState = covered\<rparr>)));
             proximities = countProximities env board
         in Inr \<lparr>gameState = fresh, columns = columns, rows = rows, board = board,
                 proximities = proximities, bombsCount = bombsCount, uncoveredCount = 0,
                 flagsCount = 0, movesCount = 0, startedAt = None, finishedAt = None\<rparr>))"

subsection \<open>Board helpers\<close>

text \<open>
  \<open>Array.prototype.map\<close> with a callback that also updates a variable of the enclosing
  function: the variable is threaded through the calls, left to right.
\<close>

fun mapIndexed :: "('a \<Rightarrow> int \<Rightarrow> 's \<Rightarrow> 'b \<times> 's) \<Rightarrow> int \<Rightarrow> 'a list \<Rightarrow> 's \<Rightarrow> 'b list \<times> 's" where
  "mapIndexed f i [] s = ([], s)"
| "mapIndexed f i (x # xs) s =
    (case f x i s of (y, s') \<Rightarrow>
       (case mapIndexed f (i + 1) xs s' of (ys, s'') \<Rightarrow> (y # ys, s'')))"

definition changeBoardItem ::
  "board \<Rightarrow> int \<Rightarrow> int \<Rightarrow> (tile \<Rightarrow> 's \<Rightarrow> tile \<times> 's) \<Rightarrow> 's \<Rightarrow> board \<times> 's" where
  "changeBoardItem b rowIndex colIndex changeItem =
     mapIndexed (\<lambda>row currentRowIndex.
       mapIndexed (\<lambda>item currentColIndex s.
         if rowIndex = currentRowIndex \<and> colIndex = currentColIndex
         then changeItem item s else (item, s)) 0 row) 0 b"

text \<open>
  \<open>copyBoard\<close> builds new arrays that hold the same tiles. On values that is the board
  itself; the arrays are told apart in the store model further down.
\<close>

definition copyBoard :: "board \<Rightarrow> board" where
  "copyBoard b = map (\<lambda>row. row) b"

definition changeItemToUncovered :: "tile \<Rightarrow> tile" where
  "changeItemToUncovered item =
     (if bombState item = bomb then item\<lparr>userState := hitBomb\<rparr> else item\<lparr>userState := open\<rparr>)"

definition canPlayForGameState :: "gameState \<Rightarrow> bool" where
  "canPlayForGameState g = (g = fresh \<or> g = playing \<or> g = beginningMove)"

definition canExpandTile :: "tile \<Rightarrow> int option \<Rightarrow> bool" where
  "canExpandTile item proximity = (bombState item = blank \<and> proximity = Some 0)"

subsection \<open>uncoverTile\<close>

text \<open>
  The variables of \<open>uncoverTile\<close> that its inner function \<open>uncoverInNewBoard\<close> assigns:
  \<open>newBoard\<close>, \<open>gameOver\<close>, \<open>uncoveredCount\<close> and \<open>flagsCount\<close>. The ones it only reads
  (\<open>proximities\<close>, \<open>rows\<close>, \<open>columns\<close>, and the imported \<open>allDirections\<close>) are arguments.
\<close>

record closure =
  newBoard :: board
  gameOverVar :: bool
  uncoveredCountVar :: int
  flagsCountVar :: int

text \<open>
  Lines 162 to 165: the new item is written into \<open>newBoard\<close> and \<open>gameOver\<close> is assigned.
\<close>

definition uncoverItem :: "closure \<Rightarrow> position \<Rightarrow> tile \<Rightarrow> closure" where
  "uncoverItem cl p prevItem =
     (let newItem = changeItemToUncovered prevItem
      in cl\<lparr>newBoard := set2 (newBoard cl) p newItem,
             gameOverVar := (userState newItem = hitBomb)\<rparr>)"

text \<open>Lines 170 to 174: the two counters.\<close>

definition countItem :: "closure \<Rightarrow> tile \<Rightarrow> closure" where
  "countItem cl prevItem =
     (let cl' = cl\<lparr>uncoveredCountVar := uncoveredCountVar cl + 1\<rparr>
      in if userState prevItem = flag then cl'\<lparr>flagsCountVar := flagsCountVar cl' - 1\<rparr> else cl')"

text \<open>Line 179: \<open>r < rows && r >= 0 && c < columns && c >= 0\<close>.\<close>

definition onBoard :: "int \<Rightarrow> int \<Rightarrow> position \<Rightarrow> bool" where
  "onBoard rws cls q = (fst q < rws \<and> fst q \<ge> 0 \<and> snd q < cls \<and> snd q \<ge> 0)"

text \<open>
  \<open>uncoverInNewBoard\<close> and the \<open>forEach\<close> over \<open>allDirections\<close> in its body. Reading
  \<open>newBoard[r][c]\<close>, \<open>proximities[r][c]\<close> and \<open>prevItem.userState\<close> (lines 156 to 158) can
  each throw a TypeError, and nothing is assigned in between.
\<close>

function uncoverInNewBoard ::
    "(position \<Rightarrow> position) list \<Rightarrow> int list list \<Rightarrow> int \<Rightarrow> int \<Rightarrow> position \<Rightarrow> closure \<Rightarrow> error + closure"
  and forEachDirection ::
    "(position \<Rightarrow> position) list \<Rightarrow> int list list \<Rightarrow> int \<Rightarrow> int \<Rightarrow> position \<Rightarrow>
       (position \<Rightarrow> position) list \<Rightarrow> closure \<Rightarrow> error + closure"
where
  "uncoverInNewBoard dirs prox rws cls p cl =
     (if gameOverVar cl then Inr cl
      else case getTile (newBoard cl) p of Inl e \<Rightarrow> Inl e | Inr prevItem \<Rightarrow>
        (case at2 prox p of Inl e \<Rightarrow> Inl e | Inr proximity \<Rightarrow>
           if userState prevItem = open then Inr cl
           else if gameOverVar (uncoverItem cl p prevItem) then Inr (uncoverItem cl p prevItem)
           else if canExpandTile (changeItemToUncovered prevItem) proximity
             then forEachDirection dirs prox rws cls p dirs (countItem (uncoverItem cl p prevItem) prevItem)
             else Inr (countItem (uncoverItem cl p prevItem) prevItem)))"
| "forEachDirection dirs prox rws cls p [] cl = Inr cl"
| "forEachDirection dirs prox rws cls p (f # fs) cl =
     (if onBoard rws cls (f p)
      then (case uncoverInNewBoard dirs prox rws cls (f p) cl of
              Inl e \<Rightarrow> Inl e
            | Inr cl' \<Rightarrow> forEachDirection dirs prox rws cls p fs cl')
      else forEachDirection dirs prox rws cls p fs cl)"
  by pat_completeness auto

text \<open>
  Termination: every call that goes on to its neighbours has opened a tile, and no call
  closes one. The calls can be nested as deep as the number of tiles that are opened; the
  source sets no bound on that depth, and neither does the model (an engine that runs
  the code has one).
\<close>

definition nonOpen :: "board \<Rightarrow> nat" where
  "nonOpen b = sum_list (map (\<lambda>row. length (filter (\<lambda>item. userState item \<noteq> open) row)) b)"

lemma filter_update_count:
  "c < length row \<Longrightarrow>
   length (filter P (row[c := v])) + (if P (row ! c) then 1 else 0)
     = length (filter P row) + (if P v then 1 else 0)"
proof -
  assume c: "c < length row"
  have "length (filter P (take c row @ v # drop (Suc c) row)) + (if P (row ! c) then 1 else 0)
      = length (filter P (take c row @ row ! c # drop (Suc c) row)) + (if P v then 1 else 0)"
    by simp
  then show ?thesis
    using upd_conv_take_nth_drop[OF c, of v] id_take_nth_drop[OF c] by simp
qed

lemma sum_list_map_update:
  "r < length b \<Longrightarrow>
   sum_list (map f (b[r := x])) + f (b ! r) = sum_list (map f b) + (f x :: nat)"
proof -
  assume r: "r < length b"
  have "sum_list (map f (take r b @ x # drop (Suc r) b)) + f (b ! r)
      = sum_list (map f (take r b @ b ! r # drop (Suc r) b)) + f x"
    by simp
  then show ?thesis
    using upd_conv_take_nth_drop[OF r, of x] id_take_nth_drop[OF r] by simp
qed

lemma getTile_Inr:
  "getTile b p = Inr item \<longleftrightarrow>
     0 \<le> fst p \<and> nat (fst p) < length b \<and> 0 \<le> snd p \<and> nat (snd p) < length (b ! nat (fst p))
     \<and> item = b ! nat (fst p) ! nat (snd p)"
  by (auto simp: getTile_def at2_def nth_opt_def split: if_splits option.splits sum.splits)

lemma nonOpen_set2:
  assumes "getTile b p = Inr prev"
  shows "nonOpen (set2 b p v) + (if userState prev \<noteq> open then 1 else 0)
           = nonOpen b + (if userState v \<noteq> open then 1 else 0)"
proof -
  from assms have r: "nat (fst p) < length b"
    and c: "nat (snd p) < length (b ! nat (fst p))"
    and prev: "prev = b ! nat (fst p) ! nat (snd p)"
    by (auto simp: getTile_Inr)
  show ?thesis
    unfolding nonOpen_def set2_def
    using sum_list_map_update[OF r, of "\<lambda>row. length (filter (\<lambda>item. userState item \<noteq> open) row)"
            "(b ! nat (fst p))[nat (snd p) := v]"]
          filter_update_count[OF c, of "\<lambda>item. userState item \<noteq> open" v]
    unfolding prev by (simp split: if_splits)
qed

lemma nonOpen_uncoverItem_le:
  "getTile (newBoard cl) p = Inr prev \<Longrightarrow> userState prev \<noteq> open \<Longrightarrow>
     nonOpen (newBoard (uncoverItem cl p prev)) \<le> nonOpen (newBoard cl)"
  using nonOpen_set2[of "newBoard cl" p prev "changeItemToUncovered prev"]
  by (simp add: uncoverItem_def Let_def split: if_splits)

lemma nonOpen_uncoverItem_less:
  "getTile (newBoard cl) p = Inr prev \<Longrightarrow> userState prev \<noteq> open \<Longrightarrow>
     \<not> gameOverVar (uncoverItem cl p prev) \<Longrightarrow>
     nonOpen (newBoard (countItem (uncoverItem cl p prev) prev)) < nonOpen (newBoard cl)"
  using nonOpen_set2[of "newBoard cl" p prev "changeItemToUncovered prev"]
  by (simp add: uncoverItem_def countItem_def changeItemToUncovered_def Let_def split: if_splits)

lemma newBoard_countItem [simp]: "newBoard (countItem cl prev) = newBoard cl"
  by (simp add: countItem_def Let_def)

lemma uncover_nonOpen_partial:
  "uncoverInNewBoard_forEachDirection_dom (Inl (dirs, prox, rws, cls, p, cl)) \<Longrightarrow>
     uncoverInNewBoard dirs prox rws cls p cl = Inr cl' \<Longrightarrow>
     nonOpen (newBoard cl') \<le> nonOpen (newBoard cl)"
  "uncoverInNewBoard_forEachDirection_dom (Inr (dirs, prox, rws, cls, p, fs, cl)) \<Longrightarrow>
     forEachDirection dirs prox rws cls p fs cl = Inr cl' \<Longrightarrow>
     nonOpen (newBoard cl') \<le> nonOpen (newBoard cl)"
proof (induction dirs prox rws cls p cl and dirs prox rws cls p fs cl arbitrary: cl' and cl'
    rule: uncoverInNewBoard_forEachDirection.pinduct)
  case (1 dirs prox rws cls p cl)
  show ?case
  proof (cases "gameOverVar cl")
    case True
    with "1.prems" "1.hyps" show ?thesis by (simp add: uncoverInNewBoard.psimps)
  next
    case False
    with "1.prems" "1.hyps" obtain prev proximity where
      g: "getTile (newBoard cl) p = Inr prev" and a: "at2 prox p = Inr proximity"
      by (auto simp: uncoverInNewBoard.psimps split: sum.splits)
    show ?thesis
    proof (cases "userState prev = open")
      case True
      with False g a "1.prems" "1.hyps" show ?thesis by (simp add: uncoverInNewBoard.psimps)
    next
      case no: False
      note le = nonOpen_uncoverItem_le[OF g no]
      show ?thesis
      proof (cases "gameOverVar (uncoverItem cl p prev)")
        case True
        with False g a no le "1.prems" "1.hyps" show ?thesis
          by (auto simp add: uncoverInNewBoard.psimps)
      next
        case ng: False
        show ?thesis
        proof (cases "canExpandTile (changeItemToUncovered prev) proximity")
          case True
          with False g a no ng "1.prems" "1.hyps"
          have "forEachDirection dirs prox rws cls p dirs (countItem (uncoverItem cl p prev) prev) = Inr cl'"
            by (simp add: uncoverInNewBoard.psimps)
          from "1.IH"[OF False g a no ng True this] le show ?thesis by simp
        next
          case False
          with \<open>\<not> gameOverVar cl\<close> g a no ng le "1.prems" "1.hyps" show ?thesis
            by (auto simp add: uncoverInNewBoard.psimps)
        qed
      qed
    qed
  qed
next
  case (2 dirs prox rws cls p cl)
  then show ?case by (simp add: forEachDirection.psimps)
next
  case (3 dirs prox rws cls p f fs cl)
  show ?case 
    using "3.prems" "3.hyps" "3.IH"
    by (auto simp add: forEachDirection.psimps split: if_splits sum.splits intro: order_trans)
qed

termination uncoverInNewBoard
  apply (relation "inv_image (less_than <*lex*> less_than)
    (\<lambda>x. case x of
        Inl (dirs, prox, rws, cls, p, cl) \<Rightarrow> (nonOpen (newBoard cl), 0)
      | Inr (dirs, prox, rws, cls, p, fs, cl) \<Rightarrow> (nonOpen (newBoard cl), Suc (length fs)))")
  subgoal by auto
  subgoal for dirs prox rws cls p cl prev proximity
    using nonOpen_uncoverItem_less[of cl p prev] by simp
  subgoal by simp
  subgoal for dirs prox rws cls p f fs cl cl'
    using uncover_nonOpen_partial(1)[of dirs prox rws cls "f p" cl cl'] by auto
  subgoal by simp
  done


text \<open>
  Lines 140 to 146, the loop that does not let a game start with a bomb. \<open>k\<close> counts the
  boards generated so far; a loop that never ends is the value \<open>None\<close>.
\<close>

partial_function (option) firstMoveBoard ::
  "environment \<Rightarrow> props \<Rightarrow> position \<Rightarrow> nat \<Rightarrow> board \<times> int list list \<Rightarrow>
     (error + board \<times> int list list) option"
where
  "firstMoveBoard env ps p k bp =
     (case getTile (fst bp) p of
        Inl e \<Rightarrow> Some (Inl e)
      | Inr item \<Rightarrow>
          if bombState item = bomb
          then (case restart env k ps of
                  Inl e \<Rightarrow> Some (Inl e)
                | Inr newState \<Rightarrow>
                    firstMoveBoard env ps p (Suc k) (board newState, proximities newState))
          else Some (Inr bp))"

text \<open>
  Lines 140 to 146 with their \<open>if\<close>: the board and the proximities the reveal runs on.
\<close>

definition boardForMove ::
  "environment \<Rightarrow> props \<Rightarrow> position \<Rightarrow> snapshot \<Rightarrow> (error + board \<times> int list list) option" where
  "boardForMove env ps p s =
     (if movesCount s = 0 then firstMoveBoard env ps p 0 (board s, proximities s)
      else Some (Inr (board s, proximities s)))"

text \<open>Lines 188 to 206: the returned object, merged into the snapshot.\<close>

definition uncoverResult :: "environment \<Rightarrow> snapshot \<Rightarrow> int list list \<Rightarrow> closure \<Rightarrow> snapshot" where
  "uncoverResult env s prox cl =
     (let won = (uncoveredCountVar cl + bombsCount s = snapshot.columns s * snapshot.rows s);
          newGameState = (if gameOverVar cl then gameOver else if won then winner else playing)
      in s\<lparr>board := newBoard cl, proximities := prox, gameState := newGameState,
             uncoveredCount := uncoveredCountVar cl, flagsCount := flagsCountVar cl,
             movesCount := movesCount s + 1,
             finishedAt := (if gameOverVar cl \<or> won then Some (now env) else None)\<rparr>)"

text \<open>
  Lines 148 to 206: the reveal, run on the board and the proximities the loop has left in
  the handler's variables.
\<close>

definition uncoverOnBoard ::
  "environment \<Rightarrow> snapshot \<Rightarrow> position \<Rightarrow> board \<times> int list list \<Rightarrow> error + snapshot" where
  "uncoverOnBoard env s p bp =
     (case uncoverInNewBoard (allDirections env) (snd bp) (snapshot.rows s) (snapshot.columns s) p
             \<lparr>newBoard = copyBoard (fst bp), gameOverVar = False,
              uncoveredCountVar = uncoveredCount s, flagsCountVar = flagsCount s\<rparr> of
        Inl e \<Rightarrow> Inl e
      | Inr cl \<Rightarrow> Inr (uncoverResult env s (snd bp) cl))"

text \<open>
  \<open>uncoverTile\<close>: \<open>None\<close> when the first-move loop never ends, \<open>Some (Inl e)\<close> when \<open>e\<close> is
  thrown, \<open>Some (Inr None)\<close> for the bare \<open>return\<close> (no change), and \<open>Some (Inr (Some s'))\<close>
  for the snapshot with the returned fields merged in.
\<close>

definition uncoverTile ::
  "environment \<Rightarrow> props \<Rightarrow> position \<Rightarrow> snapshot \<Rightarrow> (error + snapshot option) option" where
  "uncoverTile env ps p s =
     (if \<not> canPlayForGameState (gameState s) then Some (Inr None)
      else
        case boardForMove env ps p s of
          None \<Rightarrow> None
        | Some (Inl e) \<Rightarrow> Some (Inl e)
        | Some (Inr bp) \<Rightarrow>
            (case uncoverOnBoard env s p bp of
               Inl e \<Rightarrow> Some (Inl e)
             | Inr s' \<Rightarrow> Some (Inr (Some s'))))"

subsection \<open>flagTile\<close>

text \<open>
  The handler returns \<open>{ board, flagsCount }\<close>, which the caller merges into the snapshot;
  the model returns the merged snapshot. \<open>noticeChange\<close> adds to the handler's
  \<open>flagsCount\<close> variable while the new board is built.
\<close>

definition noticeChange :: "tile \<Rightarrow> int \<Rightarrow> int \<Rightarrow> tile \<times> int" where
  "noticeChange input changeBy count = (input, count + changeBy)"

definition flagTile :: "props \<Rightarrow> position \<Rightarrow> snapshot \<Rightarrow> snapshot" where
  "flagTile ps p s =
     (case changeBoardItem (board s) (fst p) (snd p)
        (\<lambda>item.
           if userState item = covered then noticeChange (item\<lparr>userState := flag\<rparr>) 1
           else if userState item = flag then noticeChange (item\<lparr>userState := covered\<rparr>) (- 1)
           else Pair item)
        (flagsCount s)
      of (board', flagsCount') \<Rightarrow> s\<lparr>board := board', flagsCount := flagsCount'\<rparr>)"

subsection \<open>The imported parts, as the specification describes them\<close>

text \<open>The cell at \<open>q\<close> is on the board and holds a bomb.\<close>

definition hasBombAt :: "board \<Rightarrow> position \<Rightarrow> bool" where
  "hasBombAt b q = (case getTile b q of Inl _ \<Rightarrow> False | Inr item \<Rightarrow> bombState item = bomb)"

text \<open>
  Modelled from the spec: the eight displacements behind \<open>allDirections\<close> of
  ./calculations, which is not in the sources. The spec speaks of the "in-bounds
  8-directional neighbors"; the order of the eight is not given, and no theorem below
  depends on it.
\<close>

definition neighbourOffsets :: "position list" where
  "neighbourOffsets = [(-1, -1), (-1, 0), (-1, 1), (0, -1), (0, 1), (1, -1), (1, 0), (1, 1)]"

text \<open>
  Modelled from the spec: \<open>allDirections\<close> of ./calculations, one function per
  displacement, from a cell to its neighbour.
\<close>

definition specAllDirections :: "(position \<Rightarrow> position) list" where
  "specAllDirections = map (\<lambda>d p. (fst p + fst d, snd p + snd d)) neighbourOffsets"

text \<open>
  Modelled from the spec: \<open>countProximities\<close> of ./calculations, which is not in the
  sources: "for every cell, count bomb-marked cells among its up-to-8 neighbors
  (bounds-clamped); store as the Proximity Grid regardless of whether the cell itself is
  a bomb".
\<close>

definition specCountProximities :: "board \<Rightarrow> int list list" where
  "specCountProximities b =
     map (\<lambda>(r, row). map (\<lambda>(c, _). int (length (filter (\<lambda>f. hasBombAt b (f (int r, int c))) specAllDirections)))
                        (enumerate 0 row))
         (enumerate 0 b)"

text \<open>
  An environment for running the model: the spec's \<open>countProximities\<close> and
  \<open>allDirections\<close>, an empty difficulty table, a clock that reads 0, and the given
  outcomes of \<open>shuffle\<close>.
\<close>

definition exampleEnv :: "(nat \<Rightarrow> bool list \<Rightarrow> bool list) \<Rightarrow> environment" where
  "exampleEnv sh = \<lparr>difficulties = (\<lambda>_. None), shuffle = sh,
      countProximities = specCountProximities, allDirections = specAllDirections, now = 0\<rparr>"

definition exampleProps :: "int \<Rightarrow> int \<Rightarrow> rat \<Rightarrow> props" where
  "exampleProps c r odds = \<lparr>difficultyID = ''custom'',
      settings = Some \<lparr>settings.columns = c, settings.rows = r, bombOdds = odds\<rparr>\<rparr>"

subsection \<open>Sequences of handler calls\<close>

text \<open>
  The caller keeps one snapshot and gives it to each handler in turn; a handler that
  returns nothing leaves it as it is.
\<close>


datatype action = UncoverTile position | FlagTile position

definition applyAction :: "environment \<Rightarrow> props \<Rightarrow> action \<Rightarrow> snapshot \<Rightarrow> (error + snapshot) option" where
  "applyAction env ps a s =
     (case a of
        FlagTile p \<Rightarrow> Some (Inr (flagTile ps p s))
      | UncoverTile p \<Rightarrow>
          (case uncoverTile env ps p s of
             None \<Rightarrow> None
           | Some (Inl e) \<Rightarrow> Some (Inl e)
           | Some (Inr None) \<Rightarrow> Some (Inr s)
           | Some (Inr (Some s')) \<Rightarrow> Some (Inr s')))"

fun play :: "environment \<Rightarrow> props \<Rightarrow> action list \<Rightarrow> snapshot \<Rightarrow> (error + snapshot) option" where
  "play env ps [] s = Some (Inr s)"
| "play env ps (a # as) s =
     (case applyAction env ps a s of
        Some (Inr s') \<Rightarrow> play env ps as s'
      | r \<Rightarrow> r)"

definition newGame :: "environment \<Rightarrow> props \<Rightarrow> action list \<Rightarrow> (error + snapshot) option" where
  "newGame env ps as = (case restart env 0 ps of Inl e \<Rightarrow> Some (Inl e) | Inr s \<Rightarrow> play env ps as s)"

definition countTiles :: "(tile \<Rightarrow> bool) \<Rightarrow> board \<Rightarrow> nat" where
  "countTiles P b = sum_list (map (\<lambda>row. length (filter P row)) b)"

definition gridShape :: "int \<Rightarrow> int \<Rightarrow> 'a list list \<Rightarrow> bool" where
  "gridShape rws cls g = (length g = nat rws \<and> list_all (\<lambda>row. length row = nat cls) g)"


declare firstMoveBoard.simps [code]

text \<open>
  The snapshot after \<open>restart\<close> with 4 columns, 1 row and one bomb (left in the first
  cell by the shuffle) and one \<open>uncoverTile\<close> at row 0, column 1.
\<close>

definition exampleSnapshot :: snapshot where
  "exampleSnapshot =
     \<lparr>gameState = playing, columns = 4, rows = 1,
      board = [[\<lparr>bombState = bomb, userState = covered\<rparr>,
                \<lparr>bombState = blank, userState = open\<rparr>,
                \<lparr>bombState = blank, userState = covered\<rparr>,
                \<lparr>bombState = blank, userState = covered\<rparr>]],
      proximities = [[0, 1, 0, 0]], bombsCount = 1, uncoveredCount = 1,
      flagsCount = 0, movesCount = 1, startedAt = None, finishedAt = None\<rparr>"

subsection \<open>Notions the claims use\<close>

text \<open>A tile at \<open>q\<close> that is marked hitBomb.\<close>

definition hitBombAt :: "board \<Rightarrow> position \<Rightarrow> bool" where
  "hitBombAt b q = (case getTile b q of Inl _ \<Rightarrow> False | Inr item \<Rightarrow> userState item = hitBomb)"

text \<open>
  The proximities are consistent with the board: no neighbour on the board of a cell of
  proximity 0 holds a bomb.
\<close>

definition proximitiesConsistent ::
  "(position \<Rightarrow> position) list \<Rightarrow> int list list \<Rightarrow> int \<Rightarrow> int \<Rightarrow> board \<Rightarrow> bool" where
  "proximitiesConsistent dirs prox rws cls b =
     list_all (\<lambda>(r, row).
       list_all (\<lambda>(c, v). v = 0 \<longrightarrow>
         list_all (\<lambda>f. onBoard rws cls (f (int r, int c)) \<longrightarrow> \<not> hasBombAt b (f (int r, int c))) dirs)
         (enumerate 0 row))
       (enumerate 0 prox)"

text \<open>Where the bombs are.\<close>

definition bombLayout :: "board \<Rightarrow> tileBombState list list" where
  "bombLayout b = map (map bombState) b"

text \<open>
  The \<open>n\<close>-th board that \<open>restart\<close> generates is the first whose cell \<open>p\<close> holds no bomb.
\<close>

definition firstSafeBoard :: "environment \<Rightarrow> props \<Rightarrow> position \<Rightarrow> nat \<Rightarrow> snapshot \<Rightarrow> bool" where
  "firstSafeBoard env ps p n ns =
     (restart env n ps = Inr ns
      \<and> (case getTile (board ns) p of Inl _ \<Rightarrow> False | Inr item \<Rightarrow> bombState item \<noteq> bomb)
      \<and> list_all (\<lambda>j. case restart env j ps of Inl _ \<Rightarrow> False | Inr nsj \<Rightarrow> hasBombAt (board nsj) p) [0..<n])"

text \<open>
  The snapshot \<open>restart\<close> returns for 4 columns, 1 row and one bomb when the shuffle
  leaves the bomb in the first cell, and the one it returns when the shuffle moves the
  bomb to the last cell.
\<close>

definition exampleFresh :: snapshot where
  "exampleFresh =
     \<lparr>gameState = fresh, columns = 4, rows = 1,
      board = [[\<lparr>bombState = bomb, userState = covered\<rparr>,
                \<lparr>bombState = blank, userState = covered\<rparr>,
                \<lparr>bombState = blank, userState = covered\<rparr>,
                \<lparr>bombState = blank, userState = covered\<rparr>]],
      proximities = [[0, 1, 0, 0]], bombsCount = 1, uncoveredCount = 0,
      flagsCount = 0, movesCount = 0, startedAt = None, finishedAt = None\<rparr>"

definition exampleRegenerated :: snapshot where
  "exampleRegenerated =
     \<lparr>gameState = fresh, columns = 4, rows = 1,
      board = [[\<lparr>bombState = blank, userState = covered\<rparr>,
                \<lparr>bombState = blank, userState = covered\<rparr>,
                \<lparr>bombState = blank, userState = covered\<rparr>,
                \<lparr>bombState = bomb, userState = covered\<rparr>]],
      proximities = [[0, 0, 1, 0]], bombsCount = 1, uncoveredCount = 0,
      flagsCount = 0, movesCount = 0, startedAt = None, finishedAt = None\<rparr>"

text \<open>The tile at \<open>q\<close> is open.\<close>

definition openAt :: "board \<Rightarrow> position \<Rightarrow> bool" where
  "openAt b q = (case getTile b q of Inl _ \<Rightarrow> False | Inr item \<Rightarrow> userState item = open)"

text \<open>
  A bomb to hit at \<open>q\<close>: a call of \<open>uncoverInNewBoard\<close> at a tile that is not open and
  holds a bomb marks it hitBomb and sets \<open>gameOver\<close> (lines 158 to 165).
\<close>

definition bombToHit :: "board \<Rightarrow> position \<Rightarrow> bool" where
  "bombToHit b q =
     (case getTile b q of Inl _ \<Rightarrow> False | Inr item \<Rightarrow> userState item \<noteq> open \<and> bombState item = bomb)"

text \<open>
  The reveal goes on from \<open>q\<close> to its neighbours: the tile is not open (line 158) and
  \<open>canExpandTile\<close> holds of it and its proximity (line 176).
\<close>

definition expandsAt :: "int list list \<Rightarrow> board \<Rightarrow> position \<Rightarrow> bool" where
  "expandsAt prox b q =
     (case getTile b q of
        Inl _ \<Rightarrow> False
      | Inr item \<Rightarrow>
          userState item \<noteq> open
          \<and> (case at2 prox q of Inl _ \<Rightarrow> False | Inr proximity \<Rightarrow> canExpandTile item proximity))"

text \<open>
  The cells a reveal of \<open>p\<close> on the board \<open>b\<close> comes to when no bomb stops it: \<open>p\<close> itself,
  and the neighbours on the board (line 179) of every cell it comes to and goes on from.
\<close>

inductive reveals ::
  "(position \<Rightarrow> position) list \<Rightarrow> int list list \<Rightarrow> int \<Rightarrow> int \<Rightarrow> board \<Rightarrow> position \<Rightarrow> position \<Rightarrow> bool"
  for dirs prox rws cls b p
where
  target: "reveals dirs prox rws cls b p p"
| neighbour: "reveals dirs prox rws cls b p q \<Longrightarrow> expandsAt prox b q \<Longrightarrow> f \<in> set dirs \<Longrightarrow>
     onBoard rws cls (f q) \<Longrightarrow> reveals dirs prox rws cls b p (f q)"

text \<open>
  A bomb is hit: among the cells that the reveal of \<open>p\<close> on the board \<open>b\<close> comes to
  there is a bomb to hit, at \<open>q\<close> (\<open>bombHitAt\<close>) or at some cell (\<open>bombHit\<close>).
\<close>

definition bombHitAt ::
  "(position \<Rightarrow> position) list \<Rightarrow> int list list \<Rightarrow> int \<Rightarrow> int \<Rightarrow> board \<Rightarrow> position \<Rightarrow> position \<Rightarrow> bool" where
  "bombHitAt dirs prox rws cls b p q = (reveals dirs prox rws cls b p q \<and> bombToHit b q)"

definition bombHit ::
  "(position \<Rightarrow> position) list \<Rightarrow> int list list \<Rightarrow> int \<Rightarrow> int \<Rightarrow> board \<Rightarrow> position \<Rightarrow> bool" where
  "bombHit dirs prox rws cls b p = (\<exists>q. bombHitAt dirs prox rws cls b p q)"

text \<open>The number of open tiles.\<close>

definition openTiles :: "board \<Rightarrow> nat" where
  "openTiles b = countTiles (\<lambda>item. userState item = open) b"

subsection \<open>The board as arrays in a store\<close>

text \<open>
  For the effect of \<open>uncoverTile\<close> on the arrays of the snapshot it is given, the board
  is modelled as JavaScript has it: an array of references to row arrays, each an object
  of a store, which \<open>newBoard[rowIndex][colIndex] = newItem\<close> updates in place. Tiles are
  values: game.js never assigns to a field of a tile. An address is an index into the
  store; a new object is appended.
\<close>

type_synonym addr = nat

datatype object = Rows "addr list" | Cells "tile list"

type_synonym store = "object list"

definition alloc :: "store \<Rightarrow> object \<Rightarrow> addr \<times> store" where
  "alloc h obj = (length h, h @ [obj])"

definition deref :: "store \<Rightarrow> addr \<Rightarrow> object option" where
  "deref h a = (if a < length h then Some (h ! a) else None)"

text \<open>\<open>copyBoard\<close>: \<open>row.slice()\<close> for every row, collected by \<open>map\<close> into a new array.\<close>

fun sliceRows :: "store \<Rightarrow> addr list \<Rightarrow> (error + addr list) \<times> store" where
  "sliceRows h [] = (Inr [], h)"
| "sliceRows h (ra # ras) =
     (case deref h ra of
        Some (Cells cs) \<Rightarrow>
          (case alloc h (Cells cs) of (na, h1) \<Rightarrow>
             (case sliceRows h1 ras of
                (Inl e, h2) \<Rightarrow> (Inl e, h2)
              | (Inr nas, h2) \<Rightarrow> (Inr (na # nas), h2)))
      | _ \<Rightarrow> (Inl TypeError, h))"

definition copyBoardS :: "store \<Rightarrow> addr \<Rightarrow> (error + addr) \<times> store" where
  "copyBoardS h a =
     (case deref h a of
        Some (Rows ras) \<Rightarrow>
          (case sliceRows h ras of
             (Inl e, h1) \<Rightarrow> (Inl e, h1)
           | (Inr nas, h1) \<Rightarrow> (case alloc h1 (Rows nas) of (na, h2) \<Rightarrow> (Inr na, h2)))
      | _ \<Rightarrow> (Inl TypeError, h))"

text \<open>The row array that \<open>newBoard[rowIndex]\<close> refers to, and what it holds.\<close>

definition rowRef :: "store \<Rightarrow> addr \<Rightarrow> position \<Rightarrow> (addr \<times> tile list) option" where
  "rowRef h a p =
     (case deref h a of
        Some (Rows ras) \<Rightarrow>
          (case nth_opt ras (fst p) of
             None \<Rightarrow> None
           | Some ra \<Rightarrow> (case deref h ra of Some (Cells cs) \<Rightarrow> Some (ra, cs) | _ \<Rightarrow> None))
      | _ \<Rightarrow> None)"

definition getTileS :: "store \<Rightarrow> addr \<Rightarrow> position \<Rightarrow> error + tile" where
  "getTileS h a p =
     (case rowRef h a p of
        None \<Rightarrow> Inl TypeError
      | Some (ra, cs) \<Rightarrow> (case nth_opt cs (snd p) of None \<Rightarrow> Inl TypeError | Some item \<Rightarrow> Inr item))"

definition setTileS :: "store \<Rightarrow> addr \<Rightarrow> position \<Rightarrow> tile \<Rightarrow> store" where
  "setTileS h a p v =
     (case rowRef h a p of
        None \<Rightarrow> h
      | Some (ra, cs) \<Rightarrow> h[ra := Cells (cs[nat (snd p) := v])])"

record storeClosure =
  store :: store
  newBoardRef :: addr
  gameOverS :: bool
  uncoveredCountS :: int
  flagsCountS :: int

text \<open>
  Lines 151 to 184 on the store. The first argument bounds the depth of the recursive
  calls; a run that needs more ends in \<open>OutOfFuel\<close>. The store is returned in every case,
  with what has been written so far.
\<close>

datatype status = Done | Threw error | OutOfFuel

definition uncoverItemS :: "storeClosure \<Rightarrow> position \<Rightarrow> tile \<Rightarrow> storeClosure" where
  "uncoverItemS cl p prevItem =
     (let newItem = changeItemToUncovered prevItem
      in cl\<lparr>store := setTileS (store cl) (newBoardRef cl) p newItem,
             gameOverS := (userState newItem = hitBomb)\<rparr>)"

definition countItemS :: "storeClosure \<Rightarrow> tile \<Rightarrow> storeClosure" where
  "countItemS cl prevItem =
     (let cl' = cl\<lparr>uncoveredCountS := uncoveredCountS cl + 1\<rparr>
      in if userState prevItem = flag then cl'\<lparr>flagsCountS := flagsCountS cl' - 1\<rparr> else cl')"

fun uncoverInNewBoardS ::
    "nat \<Rightarrow> (position \<Rightarrow> position) list \<Rightarrow> int list list \<Rightarrow> int \<Rightarrow> int \<Rightarrow> position \<Rightarrow>
       storeClosure \<Rightarrow> status \<times> storeClosure"
  and forEachDirectionS ::
    "nat \<Rightarrow> (position \<Rightarrow> position) list \<Rightarrow> int list list \<Rightarrow> int \<Rightarrow> int \<Rightarrow> position \<Rightarrow>
       (position \<Rightarrow> position) list \<Rightarrow> storeClosure \<Rightarrow> status \<times> storeClosure"
where
  "uncoverInNewBoardS 0 dirs prox rws cls p cl = (OutOfFuel, cl)"
| "uncoverInNewBoardS (Suc n) dirs prox rws cls p cl =
     (if gameOverS cl then (Done, cl)
      else case getTileS (store cl) (newBoardRef cl) p of Inl e \<Rightarrow> (Threw e, cl) | Inr prevItem \<Rightarrow>
        (case at2 prox p of Inl e \<Rightarrow> (Threw e, cl) | Inr proximity \<Rightarrow>
           if userState prevItem = open then (Done, cl)
           else if gameOverS (uncoverItemS cl p prevItem) then (Done, uncoverItemS cl p prevItem)
           else if canExpandTile (changeItemToUncovered prevItem) proximity
             then forEachDirectionS n dirs prox rws cls p dirs (countItemS (uncoverItemS cl p prevItem) prevItem)
             else (Done, countItemS (uncoverItemS cl p prevItem) prevItem)))"
| "forEachDirectionS n dirs prox rws cls p [] cl = (Done, cl)"
| "forEachDirectionS n dirs prox rws cls p (f # fs) cl =
     (if onBoard rws cls (f p)
      then (case uncoverInNewBoardS n dirs prox rws cls (f p) cl of
              (Done, cl') \<Rightarrow> forEachDirectionS n dirs prox rws cls p fs cl'
            | (st, cl') \<Rightarrow> (st, cl'))
      else forEachDirectionS n dirs prox rws cls p fs cl)"

text \<open>Lines 148 to 186 on the store, for the board at address \<open>a\<close>.\<close>

definition uncoverOnBoardS ::
  "nat \<Rightarrow> (position \<Rightarrow> position) list \<Rightarrow> int list list \<Rightarrow> int \<Rightarrow> int \<Rightarrow> position \<Rightarrow>
     int \<Rightarrow> int \<Rightarrow> addr \<Rightarrow> store \<Rightarrow> status \<times> storeClosure" where
  "uncoverOnBoardS fuel dirs prox rws cls p uncovered flags a h =
     (case copyBoardS h a of
        (Inl e, h1) \<Rightarrow>
          (Threw e, \<lparr>store = h1, newBoardRef = a, gameOverS = False,
                     uncoveredCountS = uncovered, flagsCountS = flags\<rparr>)
      | (Inr na, h1) \<Rightarrow>
          uncoverInNewBoardS fuel dirs prox rws cls p
            \<lparr>store = h1, newBoardRef = na, gameOverS = False,
             uncoveredCountS = uncovered, flagsCountS = flags\<rparr>)"

text \<open>The board value that the arrays at an address hold.\<close>

definition cellsAt :: "store \<Rightarrow> addr \<Rightarrow> tile list option" where
  "cellsAt h ra = (case deref h ra of Some (Cells cs) \<Rightarrow> Some cs | _ \<Rightarrow> None)"

definition readBoard :: "store \<Rightarrow> addr \<Rightarrow> board option" where
  "readBoard h a =
     (case deref h a of Some (Rows ras) \<Rightarrow> those (map (cellsAt h) ras) | _ \<Rightarrow> None)"

text \<open>A store that holds the board of \<open>exampleSnapshot\<close> at address 1.\<close>

definition exampleStore :: store where
  "exampleStore = [Cells [\<lparr>bombState = bomb, userState = covered\<rparr>,
                \<lparr>bombState = blank, userState = open\<rparr>,
                \<lparr>bombState = blank, userState = covered\<rparr>,
                \<lparr>bombState = blank, userState = covered\<rparr>], Rows [0]]"

text \<open>\<open>h'\<close> holds every object of \<open>h\<close>, unchanged.\<close>

definition extends :: "store \<Rightarrow> store \<Rightarrow> bool" where
  "extends h h' = (length h \<le> length h' \<and> take (length h) h' = h)"

text \<open>
  The board at \<open>na\<close> in \<open>h'\<close> is new with respect to \<open>h\<close>: neither the array itself nor
  any of its rows is an object of \<open>h\<close>.
\<close>

definition freshBoard :: "store \<Rightarrow> store \<Rightarrow> addr \<Rightarrow> bool" where
  "freshBoard h h' na =
     (length h \<le> na \<and> (\<forall>ras. deref h' na = Some (Rows ras) \<longrightarrow> (\<forall>ra\<in>set ras. length h \<le> ra)))"

text \<open>
  The rows of the board at \<open>a\<close> are different arrays, and none of them is the array of
  rows itself.
\<close>

definition distinctRows :: "store \<Rightarrow> addr \<Rightarrow> bool" where
  "distinctRows h a =
     (case deref h a of Some (Rows ras) \<Rightarrow> distinct ras \<and> a \<notin> set ras | _ \<Rightarrow> False)"

text \<open>
  The closure of the value model that a closure of the store model stands for, given the
  board \<open>b\<close> read at its \<open>newBoardRef\<close>.
\<close>

definition absClosure :: "storeClosure \<Rightarrow> board \<Rightarrow> closure" where
  "absClosure c b = \<lparr>newBoard = b, gameOverVar = gameOverS c,
      uncoveredCountVar = uncoveredCountS c, flagsCountVar = flagsCountS c\<rparr>"

text \<open>
  A result of the store model agrees with a result \<open>v\<close> of the value model: it is done and
  stands for the closure \<open>v\<close> returns, or it threw what \<open>v\<close> throws, or the bound on the
  depth was reached.
\<close>

definition simulates :: "storeClosure \<Rightarrow> status \<times> storeClosure \<Rightarrow> error + closure \<Rightarrow> bool" where
  "simulates c r v =
     (case fst r of
        Done \<Rightarrow> (\<exists>b'. readBoard (store (snd r)) (newBoardRef (snd r)) = Some b'
                   \<and> distinctRows (store (snd r)) (newBoardRef (snd r))
                   \<and> newBoardRef (snd r) = newBoardRef c
                   \<and> v = Inr (absClosure (snd r) b'))
      | Threw e \<Rightarrow> v = Inl e
      | OutOfFuel \<Rightarrow> True)"

section \<open>Properties\<close>

subsection \<open>Arrays\<close>


lemma mapIndexed_unchanged:
  "(\<And>x j s. f x j s = (x, s)) \<Longrightarrow> mapIndexed f i xs s = (xs, s)"
  by (induction xs arbitrary: i s) auto

lemma mapIndexed_single:
  "mapIndexed (\<lambda>x j s. if j = t then h x s else (x, s)) i xs s =
     (if i \<le> t \<and> t < i + int (length xs)
      then (xs[nat (t - i) := fst (h (xs ! nat (t - i)) s)], snd (h (xs ! nat (t - i)) s))
      else (xs, s))"
proof (induction xs arbitrary: i s)
  case Nil
  then show ?case by auto
next
  case (Cons x xs)
  let ?f = "\<lambda>x j s. if j = t then h x s else (x, s)"
  show ?case
  proof (cases "i = t")
    case True
    have "mapIndexed ?f (t + 1) xs s' = (xs, s')" for s'
      using Cons.IH[of "t + 1" s'] by simp
    with True show ?thesis by (simp split: prod.splits)
  next
    case False
    have step: "mapIndexed ?f i (x # xs) s = (case mapIndexed ?f (i + 1) xs s of (ys, s'') \<Rightarrow> (x # ys, s''))"
      using False by simp
    show ?thesis
    proof (cases "i + 1 \<le> t \<and> t < i + 1 + int (length xs)")
      case True
      then have "nat (t - i) = Suc (nat (t - (i + 1)))" by linarith
      with True False show ?thesis
        unfolding step Cons.IH[of "i + 1" s] by simp
    next
      case False
      with \<open>i \<noteq> t\<close> have "\<not> (i \<le> t \<and> t < i + int (length (x # xs)))" by auto
      then have eq1: "(i \<le> t \<and> t < i + int (length (x # xs))) = False" by simp
      from False have eq2: "(i + 1 \<le> t \<and> t < i + 1 + int (length xs)) = False" by simp
      show ?thesis unfolding step Cons.IH[of "i + 1" s] eq1 eq2 by simp
    qed
  qed
qed

lemma changeBoardItem_eq:
  "changeBoardItem b r c f s =
     (case getTile b (r, c) of
        Inl _ \<Rightarrow> (b, s)
      | Inr item \<Rightarrow> (set2 b (r, c) (fst (f item s)), snd (f item s)))"
proof -
  let ?inner = "\<lambda>(j::int). \<lambda>item k s. if r = j \<and> c = k then f item s else (item, s)"
  let ?h = "\<lambda>row s. mapIndexed (\<lambda>item k s. if k = c then f item s else (item, s)) 0 row s"
  have outer: "mapIndexed (?inner j) 0 row s' = (if j = r then ?h row s' else (row, s'))" for j row s'
  proof (cases "j = r")
    case True
    have "?inner r = (\<lambda>item k s. if k = c then f item s else (item, s))" by (auto simp: fun_eq_iff)
    with True show ?thesis by simp
  next
    case False
    then show ?thesis by (simp add: mapIndexed_unchanged)
  qed
  have h: "?h row s' = (if 0 \<le> c \<and> c < int (length row)
      then (row[nat c := fst (f (row ! nat c) s')], snd (f (row ! nat c) s')) else (row, s'))" for row s'
    using mapIndexed_single[of c f 0 row s'] by simp
  have "changeBoardItem b r c f s =
      mapIndexed (\<lambda>row j s. if j = r then ?h row s else (row, s)) 0 b s"
  proof -
    have "(\<lambda>row j. mapIndexed (?inner j) 0 row) = (\<lambda>row j s. if j = r then ?h row s else (row, s))"
      by (intro ext) (rule outer)
    then show ?thesis unfolding changeBoardItem_def by simp
  qed
  also have "\<dots> = (if 0 \<le> r \<and> r < int (length b)
      then (b[nat r := fst (?h (b ! nat r) s)], snd (?h (b ! nat r) s)) else (b, s))"
    using mapIndexed_single[of r ?h 0 b s] by simp
  finally show ?thesis
    by (auto simp: h getTile_def at2_def nth_opt_def set2_def split: option.splits sum.splits)
qed



lemma getTile_set2_same:
  "getTile b p = Inr item \<Longrightarrow> getTile (set2 b p v) p = Inr v"
  by (auto simp: getTile_def at2_def nth_opt_def set2_def split: option.splits sum.splits if_splits)

lemma set2_set2:
  "set2 (set2 b p v) p w = set2 b p w"
  by (cases "nat (fst p) < length b") (simp_all add: set2_def list_update_beyond)

lemma set2_same:
  "getTile b p = Inr item \<Longrightarrow> set2 b p item = b"
  by (auto simp: getTile_Inr set2_def)

lemma flagTile_eq:
  "flagTile ps p s =
     (case getTile (board s) p of
        Inl _ \<Rightarrow> s
      | Inr item \<Rightarrow>
          if userState item = covered
          then s\<lparr>board := set2 (board s) p (item\<lparr>userState := flag\<rparr>), flagsCount := flagsCount s + 1\<rparr>
          else if userState item = flag
          then s\<lparr>board := set2 (board s) p (item\<lparr>userState := covered\<rparr>), flagsCount := flagsCount s - 1\<rparr>
          else s)"
  by (cases p) (auto simp: flagTile_def changeBoardItem_eq noticeChange_def set2_same split: sum.splits)


subsection \<open>The flood fill\<close>

lemma at2_Inr_Some:
  "at2 g p = Inr (Some v) \<longleftrightarrow>
     0 \<le> fst p \<and> nat (fst p) < length g \<and> 0 \<le> snd p \<and> nat (snd p) < length (g ! nat (fst p))
     \<and> v = g ! nat (fst p) ! nat (snd p)"
  by (auto simp: at2_def nth_opt_def split: if_splits option.splits)

lemma proximitiesConsistentD:
  assumes "proximitiesConsistent dirs prox rws cls b" and "at2 prox p = Inr (Some 0)"
    and "f \<in> set dirs" and "onBoard rws cls (f p)"
  shows "\<not> hasBombAt b (f p)"
proof -
  from assms(2) have r: "0 \<le> fst p" "nat (fst p) < length prox"
    and c: "0 \<le> snd p" "nat (snd p) < length (prox ! nat (fst p))"
    and v: "prox ! nat (fst p) ! nat (snd p) = 0"
    by (auto simp: at2_Inr_Some)
  have 1: "(nat (fst p), prox ! nat (fst p)) \<in> set (enumerate 0 prox)"
    using r by (simp add: in_set_enumerate_eq)
  have 2: "(nat (snd p), 0) \<in> set (enumerate 0 (prox ! nat (fst p)))"
    using c v by (simp add: in_set_enumerate_eq)
  have p: "(int (nat (fst p)), int (nat (snd p))) = p" using r c by simp
  note A = assms(1)[unfolded proximitiesConsistent_def list_all_iff]
  from bspec[OF A 1]
  have B: "\<forall>(c, v)\<in>set (enumerate 0 (prox ! nat (fst p))). v = 0 \<longrightarrow>
      (\<forall>f\<in>set dirs. onBoard rws cls (f (int (nat (fst p)), int c)) \<longrightarrow>
         \<not> hasBombAt b (f (int (nat (fst p)), int c)))"
    by simp
  from bspec[OF B 2]
  have C: "\<forall>f\<in>set dirs. onBoard rws cls (f (int (nat (fst p)), int (nat (snd p)))) \<longrightarrow>
         \<not> hasBombAt b (f (int (nat (fst p)), int (nat (snd p))))"
    by simp
  from bspec[OF C assms(3)] assms(4) show ?thesis unfolding p by simp
qed

lemma hasBombAt_layout:
  assumes "bombLayout b = bombLayout b'"
  shows "hasBombAt b q = hasBombAt b' q"
proof -
  from assms have len: "length b = length b'" by (metis bombLayout_def length_map)
  have row: "map bombState (b ! i) = map bombState (b' ! i)" if "i < length b" for i
    using assms that len by (metis bombLayout_def nth_map)
  have rlen: "length (b ! i) = length (b' ! i)" if "i < length b" for i
    using row[OF that] by (metis length_map)
  have cell: "bombState (b ! i ! j) = bombState (b' ! i ! j)" if "i < length b" "j < length (b ! i)" for i j
    using row[OF that(1)] that rlen[OF that(1)] by (metis nth_map)
  show ?thesis
    unfolding hasBombAt_def getTile_def at2_def nth_opt_def
    using len rlen cell by (auto split: sum.splits option.splits)
qed

lemma proximitiesConsistent_layout:
  assumes "bombLayout b = bombLayout b'"
  shows "proximitiesConsistent dirs prox rws cls b = proximitiesConsistent dirs prox rws cls b'"
proof -
  have "hasBombAt b = hasBombAt b'" using hasBombAt_layout[OF assms] by (simp add: fun_eq_iff)
  then show ?thesis by (simp add: proximitiesConsistent_def)
qed

lemma bombLayout_set2:
  assumes "getTile b p = Inr prev" and "bombState v = bombState prev"
  shows "bombLayout (set2 b p v) = bombLayout b"
proof -
  from assms(1) have r: "nat (fst p) < length b" and c: "nat (snd p) < length (b ! nat (fst p))"
    and prev: "prev = b ! nat (fst p) ! nat (snd p)"
    by (auto simp: getTile_Inr)
  have "map bombState ((b ! nat (fst p))[nat (snd p) := v]) = map bombState (b ! nat (fst p))"
    using c assms(2) prev by (simp add: map_update list_update_same_conv)
  then show ?thesis
    using r by (simp add: bombLayout_def set2_def map_update list_update_same_conv)
qed

lemma getTile_set2_other:
  assumes "getTile b p = Inr prev" and "q \<noteq> p"
  shows "getTile (set2 b p v) q = getTile b q"
proof -
  from assms(1) have r: "0 \<le> fst p" "nat (fst p) < length b"
    and c: "0 \<le> snd p" "nat (snd p) < length (b ! nat (fst p))"
    by (auto simp: getTile_Inr)
  from assms(2) have "fst q \<noteq> fst p \<or> snd q \<noteq> snd p" by (auto simp: prod_eq_iff)
  then show ?thesis
    using r c
    by (auto simp: getTile_def at2_def nth_opt_def set2_def nth_list_update split: sum.splits option.splits)
qed

lemma uncoverItem_simps [simp]:
  "newBoard (uncoverItem cl p prev) = set2 (newBoard cl) p (changeItemToUncovered prev)"
  "gameOverVar (uncoverItem cl p prev) = (bombState prev = bomb)"
  "uncoveredCountVar (uncoverItem cl p prev) = uncoveredCountVar cl"
  "flagsCountVar (uncoverItem cl p prev) = flagsCountVar cl"
  by (simp_all add: uncoverItem_def Let_def changeItemToUncovered_def)

lemma countItem_simps [simp]:
  "gameOverVar (countItem cl prev) = gameOverVar cl"
  "uncoveredCountVar (countItem cl prev) = uncoveredCountVar cl + 1"
  "flagsCountVar (countItem cl prev) = (if userState prev = flag then flagsCountVar cl - 1 else flagsCountVar cl)"
  by (simp_all add: countItem_def Let_def)

text \<open>An invariant of the two assignments is an invariant of the whole flood fill.\<close>

lemma uncover_invariant:
  assumes step: "\<And>cl p prev. J cl \<Longrightarrow> \<not> gameOverVar cl \<Longrightarrow> getTile (newBoard cl) p = Inr prev \<Longrightarrow>
            userState prev \<noteq> open \<Longrightarrow> bombState prev = bomb \<Longrightarrow> J (uncoverItem cl p prev)"
    and count: "\<And>cl p prev. J cl \<Longrightarrow> \<not> gameOverVar cl \<Longrightarrow> getTile (newBoard cl) p = Inr prev \<Longrightarrow>
            userState prev \<noteq> open \<Longrightarrow> bombState prev \<noteq> bomb \<Longrightarrow>
            J (countItem (uncoverItem cl p prev) prev)"
  shows "J cl \<Longrightarrow> uncoverInNewBoard dirs prox rws cls p cl = Inr cl' \<Longrightarrow> J cl'"
    and "J cl \<Longrightarrow> forEachDirection dirs prox rws cls p fs cl = Inr cl' \<Longrightarrow> J cl'"
proof (induction dirs prox rws cls p cl and dirs prox rws cls p fs cl arbitrary: cl' and cl'
    rule: uncoverInNewBoard_forEachDirection.induct)
  case (1 dirs prox rws cls p cl)
  show ?case
  proof (cases "gameOverVar cl")
    case True
    with "1.prems" show ?thesis by simp
  next
    case False
    with "1.prems" obtain prev proximity where
      g: "getTile (newBoard cl) p = Inr prev" and a: "at2 prox p = Inr proximity"
      by (auto split: sum.splits)
    show ?thesis
    proof (cases "userState prev = open")
      case True
      with False g a "1.prems" show ?thesis by simp
    next
      case no: False
      show ?thesis
      proof (cases "bombState prev = bomb")
        case True
        with False g a no "1.prems" step[OF "1.prems"(1) False g no True] show ?thesis by simp
      next
        case nb: False
        note J3 = count[OF "1.prems"(1) False g no nb]
        show ?thesis
        proof (cases "canExpandTile (changeItemToUncovered prev) proximity")
          case True
          with False g a no nb "1.prems"
          have "forEachDirection dirs prox rws cls p dirs (countItem (uncoverItem cl p prev) prev) = Inr cl'"
            by simp
          from "1.IH"[OF False g a no _ True J3 this] nb show ?thesis by simp
        next
          case False
          with \<open>\<not> gameOverVar cl\<close> g a no nb "1.prems" J3 show ?thesis by simp
        qed
      qed
    qed
  qed
next
  case (2 dirs prox rws cls p cl)
  then show ?case by simp
next
  case (3 dirs prox rws cls p f fs cl)
  show ?case
  proof (cases "onBoard rws cls (f p)")
    case True
    with "3.prems" obtain cl1 where
      u: "uncoverInNewBoard dirs prox rws cls (f p) cl = Inr cl1"
      and r: "forEachDirection dirs prox rws cls p fs cl1 = Inr cl'"
      by (auto split: sum.splits)
    from "3.IH"(1)[OF True "3.prems"(1) u] have "J cl1" .
    from "3.IH"(2)[OF True u this r] show ?thesis .
  next
    case False
    with "3.prems" "3.IH"(3)[OF False] show ?thesis by simp
  qed
qed

lemma changeItemToUncovered_simps [simp]:
  "bombState (changeItemToUncovered item) = bombState item"
  "userState (changeItemToUncovered item) = (if bombState item = bomb then hitBomb else open)"
  by (simp_all add: changeItemToUncovered_def)

lemma uncover_bombLayout:
  "uncoverInNewBoard dirs prox rws cls p cl = Inr cl' \<Longrightarrow> bombLayout (newBoard cl') = bombLayout (newBoard cl)"
  "forEachDirection dirs prox rws cls p fs cl = Inr cl' \<Longrightarrow> bombLayout (newBoard cl') = bombLayout (newBoard cl)"
  using uncover_invariant(1)[where J = "\<lambda>c. bombLayout (newBoard c) = bombLayout (newBoard cl)"
      and cl = cl and cl' = cl' and dirs = dirs and prox = prox and rws = rws and cls = cls and p = p]
    uncover_invariant(2)[where J = "\<lambda>c. bombLayout (newBoard c) = bombLayout (newBoard cl)"
      and cl = cl and cl' = cl' and dirs = dirs and prox = prox and rws = rws and cls = cls and p = p and fs = fs]
  by (simp_all add: bombLayout_set2)

lemma hitBombAt_set2_open:
  assumes "getTile b p = Inr prev" and "userState v \<noteq> hitBomb" and "hitBombAt (set2 b p v) q"
  shows "hitBombAt b q"
proof (cases "q = p")
  case True
  with assms show ?thesis by (simp add: hitBombAt_def getTile_set2_same)
next
  case False
  with assms show ?thesis by (simp add: hitBombAt_def getTile_set2_other)
qed

lemma hasBombAt_getTile: "getTile b p = Inr prev \<Longrightarrow> hasBombAt b p = (bombState prev = bomb)"
  by (simp add: hasBombAt_def)

text \<open>
  A flood fill that starts at a tile without a bomb, or the loop over the neighbours of a
  cell of proximity 0, hits no bomb when the proximities are consistent with the board.
\<close>

lemma uncover_no_bomb:
  "proximitiesConsistent dirs prox rws cls (newBoard cl) \<Longrightarrow> \<not> gameOverVar cl \<Longrightarrow>
     \<not> hasBombAt (newBoard cl) p \<Longrightarrow> uncoverInNewBoard dirs prox rws cls p cl = Inr cl' \<Longrightarrow>
     \<not> gameOverVar cl' \<and> (\<forall>q. hitBombAt (newBoard cl') q \<longrightarrow> hitBombAt (newBoard cl) q)"
  "proximitiesConsistent dirs prox rws cls (newBoard cl) \<Longrightarrow> \<not> gameOverVar cl \<Longrightarrow>
     at2 prox p = Inr (Some 0) \<Longrightarrow> set fs \<subseteq> set dirs \<Longrightarrow>
     forEachDirection dirs prox rws cls p fs cl = Inr cl' \<Longrightarrow>
     \<not> gameOverVar cl' \<and> (\<forall>q. hitBombAt (newBoard cl') q \<longrightarrow> hitBombAt (newBoard cl) q)"
proof (induction dirs prox rws cls p cl and dirs prox rws cls p fs cl arbitrary: cl' and cl'
    rule: uncoverInNewBoard_forEachDirection.induct)
  case (1 dirs prox rws cls p cl)
  note ng = \<open>\<not> gameOverVar cl\<close>
  from "1.prems" ng obtain prev proximity where
    g: "getTile (newBoard cl) p = Inr prev" and a: "at2 prox p = Inr proximity"
    by (auto split: sum.splits)
  from "1.prems"(3) g have nb: "bombState prev \<noteq> bomb" by (simp add: hasBombAt_getTile)
  show ?case
  proof (cases "userState prev = open")
    case True
    with ng g a "1.prems" show ?thesis by simp
  next
    case no: False
    let ?cl3 = "countItem (uncoverItem cl p prev) prev"
    have lay: "bombLayout (newBoard ?cl3) = bombLayout (newBoard cl)"
      using g by (simp add: bombLayout_set2)
    have hb: "hitBombAt (newBoard ?cl3) q \<Longrightarrow> hitBombAt (newBoard cl) q" for q
      using hitBombAt_set2_open[OF g, of "changeItemToUncovered prev" q] nb by simp
    show ?thesis
    proof (cases "canExpandTile (changeItemToUncovered prev) proximity")
      case True
      with ng g a no nb "1.prems"
      have r: "forEachDirection dirs prox rws cls p dirs ?cl3 = Inr cl'" by simp
      from True a have a0: "at2 prox p = Inr (Some 0)" by (simp add: canExpandTile_def)
      have c3: "proximitiesConsistent dirs prox rws cls (newBoard ?cl3)"
        using "1.prems"(1) proximitiesConsistent_layout[OF lay] by simp
      from "1.IH"[OF ng g a no _ True c3 _ a0 _ r] nb hb show ?thesis by auto
    next
      case False
      with ng g a no nb "1.prems" have "cl' = ?cl3" by simp
      with nb hb show ?thesis by auto
    qed
  qed
next
  case (2 dirs prox rws cls p cl)
  then show ?case by simp
next
  case (3 dirs prox rws cls p f fs cl)
  from "3.prems" have sub: "set fs \<subseteq> set dirs" and f: "f \<in> set dirs" by auto
  show ?case
  proof (cases "onBoard rws cls (f p)")
    case True
    with "3.prems" obtain cl1 where
      u: "uncoverInNewBoard dirs prox rws cls (f p) cl = Inr cl1"
      and r: "forEachDirection dirs prox rws cls p fs cl1 = Inr cl'"
      by (auto split: sum.splits)
    have nbf: "\<not> hasBombAt (newBoard cl) (f p)"
      using proximitiesConsistentD[OF "3.prems"(1,3) f True] .
    from "3.IH"(1)[OF True "3.prems"(1,2) nbf u]
    have 1: "\<not> gameOverVar cl1" and h1: "\<And>q. hitBombAt (newBoard cl1) q \<Longrightarrow> hitBombAt (newBoard cl) q"
      by auto
    have c1: "proximitiesConsistent dirs prox rws cls (newBoard cl1)"
      using "3.prems"(1) proximitiesConsistent_layout[OF uncover_bombLayout(1)[OF u]] by simp
    from "3.IH"(2)[OF True u c1 1 "3.prems"(3) sub r] h1 show ?thesis by auto
  next
    case False
    with "3.prems" "3.IH"(3)[OF False "3.prems"(1,2,3) sub] show ?thesis by simp
  qed
qed

lemma uncover_target:
  assumes cons: "proximitiesConsistent dirs prox rws cls (newBoard cl)"
    and ng: "\<not> gameOverVar cl"
    and u: "uncoverInNewBoard dirs prox rws cls p cl = Inr cl'"
  shows "(gameOverVar cl' \<longrightarrow> hasBombAt (newBoard cl) p)
       \<and> (\<forall>q. q \<noteq> p \<and> hitBombAt (newBoard cl') q \<longrightarrow> hitBombAt (newBoard cl) q)"
proof (cases "hasBombAt (newBoard cl) p")
  case False
  from uncover_no_bomb(1)[OF cons ng False u] show ?thesis by auto
next
  case True
  then obtain prev where g: "getTile (newBoard cl) p = Inr prev" and b: "bombState prev = bomb"
    by (auto simp: hasBombAt_def split: sum.splits)
  from u ng g obtain proximity where a: "at2 prox p = Inr proximity"
    by (auto split: sum.splits)
  have "cl' = cl \<or> cl' = uncoverItem cl p prev"
    using u ng g a b by (auto split: if_splits)
  then show ?thesis
    using True g by (auto simp: hitBombAt_def getTile_set2_other)
qed

lemma uncoverTile_returns:
  assumes "uncoverTile env ps p s = Some (Inr (Some s'))"
  obtains bp cl where "canPlayForGameState (gameState s)"
    and "boardForMove env ps p s = Some (Inr bp)"
    and "uncoverInNewBoard (allDirections env) (snd bp) (snapshot.rows s) (snapshot.columns s) p
           \<lparr>newBoard = copyBoard (fst bp), gameOverVar = False,
            uncoveredCountVar = uncoveredCount s, flagsCountVar = flagsCount s\<rparr> = Inr cl"
    and "s' = uncoverResult env s (snd bp) cl"
  using assms
  by (auto simp: uncoverTile_def uncoverOnBoard_def split: if_splits option.splits sum.splits)

lemma uncoverResult_simps [simp]:
  "board (uncoverResult env s prox cl) = newBoard cl"
  "proximities (uncoverResult env s prox cl) = prox"
  "gameState (uncoverResult env s prox cl) =
     (if gameOverVar cl then gameOver
      else if uncoveredCountVar cl + bombsCount s = snapshot.columns s * snapshot.rows s then winner
      else playing)"
  "uncoveredCount (uncoverResult env s prox cl) = uncoveredCountVar cl"
  "flagsCount (uncoverResult env s prox cl) = flagsCountVar cl"
  "movesCount (uncoverResult env s prox cl) = movesCount s + 1"
  "bombsCount (uncoverResult env s prox cl) = bombsCount s"
  "snapshot.columns (uncoverResult env s prox cl) = snapshot.columns s"
  "snapshot.rows (uncoverResult env s prox cl) = snapshot.rows s"
  by (simp_all add: uncoverResult_def Let_def)

lemma copyBoard_id [simp]: "copyBoard b = b"
  by (simp add: copyBoard_def)

lemma uncover_open_stays:
  assumes "getTile (newBoard cl) q = Inr t" and "userState t = open"
  shows "uncoverInNewBoard dirs prox rws cls p cl = Inr cl' \<Longrightarrow> getTile (newBoard cl') q = Inr t"
    and "forEachDirection dirs prox rws cls p fs cl = Inr cl' \<Longrightarrow> getTile (newBoard cl') q = Inr t"
proof -
  have step: "getTile (newBoard (uncoverItem c p' prev)) q = Inr t"
    if "getTile (newBoard c) q = Inr t" "getTile (newBoard c) p' = Inr prev" "userState prev \<noteq> open"
    for c p' prev
  proof -
    from that assms(2) have "q \<noteq> p'" by auto
    with that show ?thesis by (simp add: getTile_set2_other)
  qed
  show "uncoverInNewBoard dirs prox rws cls p cl = Inr cl' \<Longrightarrow> getTile (newBoard cl') q = Inr t"
    using uncover_invariant(1)[where J = "\<lambda>c. getTile (newBoard c) q = Inr t", OF _ _ assms(1)] step
    by simp
  show "forEachDirection dirs prox rws cls p fs cl = Inr cl' \<Longrightarrow> getTile (newBoard cl') q = Inr t"
    using uncover_invariant(2)[where J = "\<lambda>c. getTile (newBoard c) q = Inr t", OF _ _ assms(1)] step
    by simp
qed

lemma uncover_target_open:
  assumes ng: "\<not> gameOverVar cl" and g: "getTile (newBoard cl) p = Inr prev"
    and nb: "bombState prev \<noteq> bomb"
    and u: "uncoverInNewBoard dirs prox rws cls p cl = Inr cl'"
  shows "getTile (newBoard cl') p = Inr (prev\<lparr>userState := open\<rparr>)"
proof (cases "userState prev = open")
  case True
  from u ng g obtain proximity where a: "at2 prox p = Inr proximity" by (auto split: sum.splits)
  with True u ng g have "cl' = cl" by simp
  with g True show ?thesis by simp
next
  case no: False
  from u ng g obtain proximity where a: "at2 prox p = Inr proximity" by (auto split: sum.splits)
  let ?cl3 = "countItem (uncoverItem cl p prev) prev"
  have g3: "getTile (newBoard ?cl3) p = Inr (prev\<lparr>userState := open\<rparr>)"
    using g nb by (simp add: getTile_set2_same changeItemToUncovered_def)
  show ?thesis
  proof (cases "canExpandTile (changeItemToUncovered prev) proximity")
    case True
    with u ng g a no nb have "forEachDirection dirs prox rws cls p dirs ?cl3 = Inr cl'" by simp
    from uncover_open_stays(2)[OF g3 _ this] show ?thesis by simp
  next
    case False
    with u ng g a no nb have "cl' = ?cl3" by simp
    with g3 show ?thesis by simp
  qed
qed

lemma firstMoveBoard_safe:
  "getTile (fst bp) p = Inr item \<Longrightarrow> bombState item \<noteq> bomb \<Longrightarrow>
     firstMoveBoard env ps p k bp = Some (Inr bp)"
  by (simp add: firstMoveBoard.simps[of env ps p k bp])

lemma firstMoveBoard_regenerate:
  "hasBombAt (fst bp) p \<Longrightarrow> restart env k ps = Inr ns \<Longrightarrow>
     firstMoveBoard env ps p k bp = firstMoveBoard env ps p (Suc k) (board ns, proximities ns)"
  by (auto simp: firstMoveBoard.simps[of env ps p k bp] hasBombAt_def split: sum.splits)

lemma firstMoveBoard_first_safe:
  assumes "hasBombAt (fst bp) p"
    and "restart env (k + n) ps = Inr ns"
    and "getTile (board ns) p = Inr item" and "bombState item \<noteq> bomb"
    and "\<And>j. j < n \<Longrightarrow> \<exists>nsj. restart env (k + j) ps = Inr nsj \<and> hasBombAt (board nsj) p"
  shows "firstMoveBoard env ps p k bp = Some (Inr (board ns, proximities ns))"
  using assms
proof (induction n arbitrary: k bp)
  case 0
  then show ?case
    using firstMoveBoard_regenerate[of bp p env k ps ns]
      firstMoveBoard_safe[of "(board ns, proximities ns)" p item env ps "Suc k"]
    by simp
next
  case (Suc n)
  from Suc.prems(5)[of 0] obtain ns0 where r0: "restart env k ps = Inr ns0"
    and b0: "hasBombAt (board ns0) p" by auto
  have "firstMoveBoard env ps p (Suc k) (board ns0, proximities ns0) = Some (Inr (board ns, proximities ns))"
  proof (rule Suc.IH)
    show "hasBombAt (fst (board ns0, proximities ns0)) p" using b0 by simp
    show "restart env (Suc k + n) ps = Inr ns" using Suc.prems(2) by simp
    show "getTile (board ns) p = Inr item" "bombState item \<noteq> bomb" by fact+
    fix j assume "j < n"
    then have "Suc j < Suc n" by simp
    from Suc.prems(5)[OF this] show "\<exists>nsj. restart env (Suc k + j) ps = Inr nsj \<and> hasBombAt (board nsj) p"
      by simp
  qed
  with firstMoveBoard_regenerate[OF Suc.prems(1) r0] show ?case by simp
qed

lemma gridShape_getTile:
  assumes "gridShape rws cls b" and "onBoard rws cls p"
  shows "\<exists>item. getTile b p = Inr item"
proof -
  from assms have r: "0 \<le> fst p" "nat (fst p) < length b" and c: "0 \<le> snd p" "snd p < cls"
    by (auto simp: gridShape_def onBoard_def)
  from assms(1) r have "length (b ! nat (fst p)) = nat cls"
    by (auto simp: gridShape_def list_all_length)
  with r c show ?thesis by (auto simp: getTile_Inr)
qed

lemma gridShape_at2:
  assumes "gridShape rws cls g" and "onBoard rws cls p"
  shows "\<exists>v. at2 g p = Inr v"
  using assms by (auto simp: gridShape_def onBoard_def at2_def nth_opt_def)

lemma gridShape_set2: "gridShape rws cls b \<Longrightarrow> gridShape rws cls (set2 b p v)"
proof -
  assume g: "gridShape rws cls b"
  have "length (b[nat (fst p) := (b ! nat (fst p))[nat (snd p) := v]] ! n) = nat cls"
    if "n < length b" for n
    using that g by (cases "n = nat (fst p)") (auto simp: gridShape_def list_all_length)
  with g show ?thesis by (simp add: gridShape_def set2_def list_all_length)
qed

lemma uncover_gridShape:
  assumes "gridShape rws' cls' (newBoard cl)"
  shows "uncoverInNewBoard dirs prox rws cls p cl = Inr cl' \<Longrightarrow> gridShape rws' cls' (newBoard cl')"
    and "forEachDirection dirs prox rws cls p fs cl = Inr cl' \<Longrightarrow> gridShape rws' cls' (newBoard cl')"
  using uncover_invariant(1)[where J = "\<lambda>c. gridShape rws' cls' (newBoard c)", OF _ _ assms]
    uncover_invariant(2)[where J = "\<lambda>c. gridShape rws' cls' (newBoard c)", OF _ _ assms]
  by (simp_all add: gridShape_set2)

text \<open>On a board and proximities of \<open>rows\<close> by \<open>columns\<close> cells the flood fill throws nothing.\<close>

lemma uncover_returns:
  "gridShape rws cls (newBoard cl) \<Longrightarrow> gridShape rws cls prox \<Longrightarrow> onBoard rws cls p \<Longrightarrow>
     \<exists>cl'. uncoverInNewBoard dirs prox rws cls p cl = Inr cl'"
  "gridShape rws cls (newBoard cl) \<Longrightarrow> gridShape rws cls prox \<Longrightarrow>
     \<exists>cl'. forEachDirection dirs prox rws cls p fs cl = Inr cl'"
proof (induction dirs prox rws cls p cl and dirs prox rws cls p fs cl
    rule: uncoverInNewBoard_forEachDirection.induct)
  case (1 dirs prox rws cls p cl)
  from gridShape_getTile[OF "1.prems"(1,3)] obtain prev where g: "getTile (newBoard cl) p = Inr prev" ..
  from gridShape_at2[OF "1.prems"(2,3)] obtain proximity where a: "at2 prox p = Inr proximity" ..
  show ?case
  proof (cases "\<not> gameOverVar cl \<and> userState prev \<noteq> open \<and> bombState prev \<noteq> bomb
                  \<and> canExpandTile (changeItemToUncovered prev) proximity")
    case True
    have "gridShape rws cls (newBoard (countItem (uncoverItem cl p prev) prev))"
      using "1.prems"(1) by (simp add: gridShape_set2)
    from "1.IH"[OF _ g a _ _ _ this "1.prems"(2)] True g a show ?thesis by simp
  next
    case False
    with g a show ?thesis by auto
  qed
next
  case (2 dirs prox rws cls p cl)
  then show ?case by simp
next
  case (3 dirs prox rws cls p f fs cl)
  show ?case
  proof (cases "onBoard rws cls (f p)")
    case True
    from "3.IH"(1)[OF True "3.prems" True] obtain cl1 where
      u: "uncoverInNewBoard dirs prox rws cls (f p) cl = Inr cl1" ..
    from uncover_gridShape(1)[OF "3.prems"(1) u] have "gridShape rws cls (newBoard cl1)" .
    from "3.IH"(2)[OF True u this "3.prems"(2)] True u show ?thesis by simp
  next
    case False
    with "3.IH"(3)[OF False "3.prems"] show ?thesis by simp
  qed
qed

lemma uncoverTile_returns_a_snapshot:
  assumes "canPlayForGameState (gameState s)"
    and "gridShape (snapshot.rows s) (snapshot.columns s) (board s)"
    and "gridShape (snapshot.rows s) (snapshot.columns s) (proximities s)"
    and "onBoard (snapshot.rows s) (snapshot.columns s) p"
    and "movesCount s \<noteq> 0 \<or> \<not> hasBombAt (board s) p"
  shows "\<exists>s'. uncoverTile env ps p s = Some (Inr (Some s'))"
proof -
  from gridShape_getTile[OF assms(2,4)] obtain item where g: "getTile (board s) p = Inr item" ..
  with assms(5) have bm: "boardForMove env ps p s = Some (Inr (board s, proximities s))"
    by (auto simp: boardForMove_def hasBombAt_def firstMoveBoard.simps[of env ps p 0])
  from uncover_returns(1)[of "snapshot.rows s" "snapshot.columns s"
      "\<lparr>newBoard = copyBoard (board s), gameOverVar = False,
        uncoveredCountVar = uncoveredCount s, flagsCountVar = flagsCount s\<rparr>"
      "proximities s" p "allDirections env"] assms(2,3,4)
  obtain cl where "uncoverInNewBoard (allDirections env) (proximities s) (snapshot.rows s)
      (snapshot.columns s) p
      \<lparr>newBoard = copyBoard (board s), gameOverVar = False,
        uncoveredCountVar = uncoveredCount s, flagsCountVar = flagsCount s\<rparr> = Inr cl"
    by auto
  with assms(1) bm show ?thesis by (simp add: uncoverTile_def uncoverOnBoard_def)
qed

subsection \<open>What a reveal comes to\<close>

lemma forEach_gameOver:
  "gameOverVar cl \<Longrightarrow> forEachDirection dirs prox rws cls p fs cl = Inr cl"
  by (induction fs) simp_all

text \<open>
  While \<open>gameOver\<close> is false, a tile of \<open>newBoard\<close> is the tile the board had there, or
  that tile opened, and then it held no bomb.
\<close>

lemma uncover_untouched:
  assumes "\<not> gameOverVar cl'"
  shows "uncoverInNewBoard dirs prox rws cls p cl = Inr cl' \<Longrightarrow> getTile (newBoard cl') q = Inr t \<Longrightarrow>
           getTile (newBoard cl) q = Inr t
           \<or> (\<exists>t0. getTile (newBoard cl) q = Inr t0 \<and> userState t0 \<noteq> open \<and> bombState t0 \<noteq> bomb
                  \<and> t = t0\<lparr>userState := open\<rparr>)"
    and "forEachDirection dirs prox rws cls p fs cl = Inr cl' \<Longrightarrow> getTile (newBoard cl') q = Inr t \<Longrightarrow>
           getTile (newBoard cl) q = Inr t
           \<or> (\<exists>t0. getTile (newBoard cl) q = Inr t0 \<and> userState t0 \<noteq> open \<and> bombState t0 \<noteq> bomb
                  \<and> t = t0\<lparr>userState := open\<rparr>)"
proof -
  let ?b = "newBoard cl"
  let ?J = "\<lambda>c. \<not> gameOverVar c \<longrightarrow>
    (\<forall>q t. getTile (newBoard c) q = Inr t \<longrightarrow>
       getTile ?b q = Inr t
       \<or> (\<exists>t0. getTile ?b q = Inr t0 \<and> userState t0 \<noteq> open \<and> bombState t0 \<noteq> bomb
              \<and> t = t0\<lparr>userState := open\<rparr>))"
  have step: "?J (uncoverItem c p' prev)"
    if J: "?J c" and ng: "\<not> gameOverVar c" and g: "getTile (newBoard c) p' = Inr prev"
      and no: "userState prev \<noteq> open" for c p' prev
  proof (intro impI allI)
    fix q t
    assume ng': "\<not> gameOverVar (uncoverItem c p' prev)"
      and g': "getTile (newBoard (uncoverItem c p' prev)) q = Inr t"
    from ng' have nb: "bombState prev \<noteq> bomb" by simp
    from J ng g have "getTile ?b p' = Inr prev
       \<or> (\<exists>t0. getTile ?b p' = Inr t0 \<and> userState t0 \<noteq> open \<and> bombState t0 \<noteq> bomb
              \<and> prev = t0\<lparr>userState := open\<rparr>)" by blast
    with no have old: "getTile ?b p' = Inr prev" by auto
    show "getTile ?b q = Inr t
       \<or> (\<exists>t0. getTile ?b q = Inr t0 \<and> userState t0 \<noteq> open \<and> bombState t0 \<noteq> bomb
              \<and> t = t0\<lparr>userState := open\<rparr>)"
    proof (cases "q = p'")
      case True
      with g' g have "t = changeItemToUncovered prev" by (simp add: getTile_set2_same)
      then have "t = prev\<lparr>userState := open\<rparr>" using nb by (simp add: changeItemToUncovered_def)
      with old True no nb show ?thesis by auto
    next
      case False
      with g' g have "getTile (newBoard c) q = Inr t" by (simp add: getTile_set2_other)
      with J ng show ?thesis by blast
    qed
  qed
  have count: "?J (countItem (uncoverItem c p' prev) prev)"
    if "?J c" "\<not> gameOverVar c" "getTile (newBoard c) p' = Inr prev" "userState prev \<noteq> open" for c p' prev
    using step[OF that] by simp
  have J0: "?J cl" by simp
  show "uncoverInNewBoard dirs prox rws cls p cl = Inr cl' \<Longrightarrow> getTile (newBoard cl') q = Inr t \<Longrightarrow>
           getTile (newBoard cl) q = Inr t
           \<or> (\<exists>t0. getTile (newBoard cl) q = Inr t0 \<and> userState t0 \<noteq> open \<and> bombState t0 \<noteq> bomb
                  \<and> t = t0\<lparr>userState := open\<rparr>)"
    using uncover_invariant(1)[where J = ?J, OF step count J0] assms by blast
  show "forEachDirection dirs prox rws cls p fs cl = Inr cl' \<Longrightarrow> getTile (newBoard cl') q = Inr t \<Longrightarrow>
           getTile (newBoard cl) q = Inr t
           \<or> (\<exists>t0. getTile (newBoard cl) q = Inr t0 \<and> userState t0 \<noteq> open \<and> bombState t0 \<noteq> bomb
                  \<and> t = t0\<lparr>userState := open\<rparr>)"
    using uncover_invariant(2)[where J = ?J, OF step count J0] assms by blast
qed

lemma openAt_iff: "openAt b q \<longleftrightarrow> (\<exists>t. getTile b q = Inr t \<and> userState t = open)"
  by (auto simp: openAt_def split: sum.splits)

lemma openAt_stays:
  assumes "openAt (newBoard cl) q"
  shows "uncoverInNewBoard dirs prox rws cls p cl = Inr cl' \<Longrightarrow> openAt (newBoard cl') q"
    and "forEachDirection dirs prox rws cls p fs cl = Inr cl' \<Longrightarrow> openAt (newBoard cl') q"
proof -
  from assms obtain t where t: "getTile (newBoard cl) q = Inr t" "userState t = open"
    by (auto simp: openAt_iff)
  show "uncoverInNewBoard dirs prox rws cls p cl = Inr cl' \<Longrightarrow> openAt (newBoard cl') q"
    using uncover_open_stays(1)[OF t] t(2) by (auto simp: openAt_iff)
  show "forEachDirection dirs prox rws cls p fs cl = Inr cl' \<Longrightarrow> openAt (newBoard cl') q"
    using uncover_open_stays(2)[OF t] t(2) by (auto simp: openAt_iff)
qed

lemma openAt_set2:
  assumes "getTile b p = Inr prev"
  shows "openAt (set2 b p v) q = (if q = p then userState v = open else openAt b q)"
  using assms by (simp add: openAt_def getTile_set2_same getTile_set2_other)

lemma blank_or_bomb: "bombState t \<noteq> bomb \<longleftrightarrow> bombState t = blank"
  by (cases "bombState t") simp_all

text \<open>
  A flood fill that ends with \<open>gameOver\<close> false has opened its target, and all the
  neighbours on the board of every cell of proximity 0 that it has opened.
\<close>

lemma uncover_closed:
  "uncoverInNewBoard dirs prox rws cls p cl = Inr cl' \<Longrightarrow> \<not> gameOverVar cl' \<Longrightarrow>
     openAt (newBoard cl') p
     \<and> (\<forall>q. \<not> openAt (newBoard cl) q \<and> openAt (newBoard cl') q \<and> at2 prox q = Inr (Some 0) \<longrightarrow>
            (\<forall>f\<in>set dirs. onBoard rws cls (f q) \<longrightarrow> openAt (newBoard cl') (f q)))"
  "forEachDirection dirs prox rws cls p fs cl = Inr cl' \<Longrightarrow> \<not> gameOverVar cl' \<Longrightarrow>
     (\<forall>f\<in>set fs. onBoard rws cls (f p) \<longrightarrow> openAt (newBoard cl') (f p))
     \<and> (\<forall>q. \<not> openAt (newBoard cl) q \<and> openAt (newBoard cl') q \<and> at2 prox q = Inr (Some 0) \<longrightarrow>
            (\<forall>f\<in>set dirs. onBoard rws cls (f q) \<longrightarrow> openAt (newBoard cl') (f q)))"
proof (induction dirs prox rws cls p cl and dirs prox rws cls p fs cl arbitrary: cl' and cl'
    rule: uncoverInNewBoard_forEachDirection.induct)
  case (1 dirs prox rws cls p cl)
  note u = "1.prems"(1) and ng' = "1.prems"(2)
  from u ng' have ng: "\<not> gameOverVar cl" by (cases "gameOverVar cl") auto
  with u obtain prev proximity where
    g: "getTile (newBoard cl) p = Inr prev" and a: "at2 prox p = Inr proximity"
    by (auto split: sum.splits)
  show ?case
  proof (cases "userState prev = open")
    case True
    with ng g a u have "cl' = cl" by simp
    with g True show ?thesis by (auto simp: openAt_iff)
  next
    case no: False
    from u ng g a no ng' have nb: "bombState prev \<noteq> bomb" by (auto split: if_splits)
    let ?cl3 = "countItem (uncoverItem cl p prev) prev"
    have o3: "openAt (set2 (newBoard cl) p (changeItemToUncovered prev)) q
                = (if q = p then True else openAt (newBoard cl) q)" for q
      using openAt_set2[OF g, of "changeItemToUncovered prev" q] nb by simp
    show ?thesis
    proof (cases "canExpandTile (changeItemToUncovered prev) proximity")
      case True
      with u ng g a no nb have r: "forEachDirection dirs prox rws cls p dirs ?cl3 = Inr cl'" by simp
      from "1.IH"[OF ng g a no _ True r ng'] nb
      have nbs: "\<forall>f\<in>set dirs. onBoard rws cls (f p) \<longrightarrow> openAt (newBoard cl') (f p)"
        and rest: "\<forall>q. \<not> openAt (newBoard ?cl3) q \<and> openAt (newBoard cl') q \<and> at2 prox q = Inr (Some 0) \<longrightarrow>
            (\<forall>f\<in>set dirs. onBoard rws cls (f q) \<longrightarrow> openAt (newBoard cl') (f q))"
        by simp_all
      have "openAt (newBoard ?cl3) p" by (simp add: o3)
      from openAt_stays(2)[OF this r] have tgt: "openAt (newBoard cl') p" .
      have "\<forall>f\<in>set dirs. onBoard rws cls (f q) \<longrightarrow> openAt (newBoard cl') (f q)"
        if q: "\<not> openAt (newBoard cl) q \<and> openAt (newBoard cl') q \<and> at2 prox q = Inr (Some 0)" for q
      proof (cases "q = p")
        case True
        with nbs show ?thesis by simp
      next
        case False
        with q have "\<not> openAt (newBoard ?cl3) q" by (simp add: o3)
        with q rest show ?thesis by blast
      qed
      with tgt show ?thesis by blast
    next
      case False
      with u ng g a no nb have cl': "cl' = ?cl3" by simp
      have "q \<noteq> p \<or> at2 prox q \<noteq> Inr (Some 0)" for q
        using False a nb by (auto simp: canExpandTile_def blank_or_bomb)
      then have "\<not> (\<not> openAt (newBoard cl) q \<and> openAt (newBoard cl') q \<and> at2 prox q = Inr (Some 0))" for q
        by (cases "q = p") (auto simp: cl' o3)
      moreover have "openAt (newBoard cl') p" by (simp add: cl' o3)
      ultimately show ?thesis by blast
    qed
  qed
next
  case (2 dirs prox rws cls p cl)
  then show ?case by auto
next
  case (3 dirs prox rws cls p f fs cl)
  note r0 = "3.prems"(1) and ng' = "3.prems"(2)
  show ?case
  proof (cases "onBoard rws cls (f p)")
    case True
    with r0 obtain cl1 where
      u: "uncoverInNewBoard dirs prox rws cls (f p) cl = Inr cl1"
      and r: "forEachDirection dirs prox rws cls p fs cl1 = Inr cl'"
      by (auto split: sum.splits)
    have ng1: "\<not> gameOverVar cl1"
    proof
      assume "gameOverVar cl1"
      with r ng' show False by (simp add: forEach_gameOver)
    qed
    from "3.IH"(1)[OF True u ng1]
    have t1: "openAt (newBoard cl1) (f p)"
      and c1: "\<forall>q. \<not> openAt (newBoard cl) q \<and> openAt (newBoard cl1) q \<and> at2 prox q = Inr (Some 0) \<longrightarrow>
            (\<forall>f\<in>set dirs. onBoard rws cls (f q) \<longrightarrow> openAt (newBoard cl1) (f q))"
      by simp_all
    from "3.IH"(2)[OF True u r ng']
    have t2: "\<forall>f\<in>set fs. onBoard rws cls (f p) \<longrightarrow> openAt (newBoard cl') (f p)"
      and c2: "\<forall>q. \<not> openAt (newBoard cl1) q \<and> openAt (newBoard cl') q \<and> at2 prox q = Inr (Some 0) \<longrightarrow>
            (\<forall>f\<in>set dirs. onBoard rws cls (f q) \<longrightarrow> openAt (newBoard cl') (f q))"
      by simp_all
    have A: "\<forall>f'\<in>set (f # fs). onBoard rws cls (f' p) \<longrightarrow> openAt (newBoard cl') (f' p)"
      using openAt_stays(2)[OF t1 r] t2 by simp
    have B: "\<forall>g\<in>set dirs. onBoard rws cls (g q) \<longrightarrow> openAt (newBoard cl') (g q)"
      if q: "\<not> openAt (newBoard cl) q \<and> openAt (newBoard cl') q \<and> at2 prox q = Inr (Some 0)" for q
    proof (cases "openAt (newBoard cl1) q")
      case True
      with q c1 have "\<forall>g\<in>set dirs. onBoard rws cls (g q) \<longrightarrow> openAt (newBoard cl1) (g q)" by blast
      then show ?thesis using openAt_stays(2)[OF _ r] by blast
    next
      case False
      with q c2 show ?thesis by blast
    qed
    from A B show ?thesis by blast
  next
    case False
    with r0 have r: "forEachDirection dirs prox rws cls p fs cl = Inr cl'" by simp
    from "3.IH"(3)[OF False r ng'] False show ?thesis by simp
  qed
qed

lemma expandsAt_iff:
  "expandsAt prox b q \<longleftrightarrow>
     (\<exists>t. getTile b q = Inr t \<and> userState t \<noteq> open \<and> bombState t = blank) \<and> at2 prox q = Inr (Some 0)"
  by (auto simp: expandsAt_def canExpandTile_def split: sum.splits)

lemma bombToHit_iff:
  "bombToHit b q \<longleftrightarrow> (\<exists>t. getTile b q = Inr t \<and> userState t \<noteq> open \<and> bombState t = bomb)"
  by (auto simp: bombToHit_def split: sum.splits)

lemma bombHitI:
  "bombHitAt dirs prox rws cls b p q \<Longrightarrow> bombHit dirs prox rws cls b p"
  unfolding bombHit_def by blast

text \<open>So it has opened every cell that the reveal comes to, and none of them held a bomb.\<close>

lemma uncover_reveals_open:
  assumes u: "uncoverInNewBoard dirs prox rws cls p cl = Inr cl'" and ng': "\<not> gameOverVar cl'"
    and r: "reveals dirs prox rws cls (newBoard cl) p q"
  shows "openAt (newBoard cl') q"
  using r
proof (induction rule: reveals.induct)
  case target
  from uncover_closed(1)[OF u ng'] show ?case by simp
next
  case (neighbour q f)
  from neighbour.hyps(2) have "\<not> openAt (newBoard cl) q" and "at2 prox q = Inr (Some 0)"
    by (auto simp: expandsAt_iff openAt_iff)
  with neighbour.IH uncover_closed(1)[OF u ng'] neighbour.hyps(3,4) show ?case by blast
qed

lemma uncover_no_bombHit:
  assumes u: "uncoverInNewBoard dirs prox rws cls p cl = Inr cl'" and ng': "\<not> gameOverVar cl'"
  shows "\<not> bombHit dirs prox rws cls (newBoard cl) p"
proof
  assume "bombHit dirs prox rws cls (newBoard cl) p"
  then obtain q where r: "reveals dirs prox rws cls (newBoard cl) p q" and h: "bombToHit (newBoard cl) q"
    unfolding bombHit_def bombHitAt_def by blast
  from uncover_reveals_open[OF u ng' r] obtain t where
    t: "getTile (newBoard cl') q = Inr t" "userState t = open" by (auto simp: openAt_iff)
  from uncover_untouched(1)[OF ng' u t(1)] t(2) h show False
    by (auto simp: bombToHit_iff)
qed

lemma reveals_mono:
  assumes "\<And>x. expandsAt prox b1 x \<Longrightarrow> expandsAt prox b x"
  shows "reveals dirs prox rws cls b1 p q \<Longrightarrow> reveals dirs prox rws cls b p q"
  by (induction rule: reveals.induct) (auto intro: reveals.intros assms)

lemma reveals_trans:
  "reveals dirs prox rws cls b x q \<Longrightarrow> reveals dirs prox rws cls b p x \<Longrightarrow> reveals dirs prox rws cls b p q"
  by (induction rule: reveals.induct) (auto intro: reveals.intros)

lemma bombHitAt_mono:
  assumes "\<And>x t. getTile b1 x = Inr t \<Longrightarrow> userState t \<noteq> open \<Longrightarrow> getTile b x = Inr t"
    and "bombHitAt dirs prox rws cls b1 p q"
  shows "bombHitAt dirs prox rws cls b p q"
proof -
  from assms(2) have r: "reveals dirs prox rws cls b1 p q" and h: "bombToHit b1 q"
    by (simp_all add: bombHitAt_def)
  have "expandsAt prox b1 x \<Longrightarrow> expandsAt prox b x" for x
    using assms(1)[of x] by (auto simp: expandsAt_iff)
  from reveals_mono[OF this r] have "reveals dirs prox rws cls b p q" .
  moreover from h assms(1)[of q] have "bombToHit b q" by (auto simp: bombToHit_iff)
  ultimately show ?thesis by (simp add: bombHitAt_def)
qed

lemma bombHitAt_step:
  assumes "expandsAt prox b p" and "f \<in> set dirs" and "onBoard rws cls (f p)"
    and "bombHitAt dirs prox rws cls b (f p) q"
  shows "bombHitAt dirs prox rws cls b p q"
proof -
  from assms(4) have r: "reveals dirs prox rws cls b (f p) q" and h: "bombToHit b q"
    by (simp_all add: bombHitAt_def)
  have "reveals dirs prox rws cls b p (f p)"
    using reveals.neighbour[OF reveals.target assms(1,2,3)] .
  from reveals_trans[OF r this] h show ?thesis by (simp add: bombHitAt_def)
qed

text \<open>
  A flood fill that sets \<open>gameOver\<close> has marked hitBomb a bomb that the reveal had to hit.
\<close>

lemma uncover_gameOver_hits:
  "uncoverInNewBoard dirs prox rws cls p cl = Inr cl' \<Longrightarrow> \<not> gameOverVar cl \<Longrightarrow> gameOverVar cl' \<Longrightarrow>
     \<exists>q. bombHitAt dirs prox rws cls (newBoard cl) p q \<and> hitBombAt (newBoard cl') q"
  "forEachDirection dirs prox rws cls p fs cl = Inr cl' \<Longrightarrow> \<not> gameOverVar cl \<Longrightarrow> gameOverVar cl' \<Longrightarrow>
     \<exists>f\<in>set fs. onBoard rws cls (f p)
        \<and> (\<exists>q. bombHitAt dirs prox rws cls (newBoard cl) (f p) q \<and> hitBombAt (newBoard cl') q)"
proof (induction dirs prox rws cls p cl and dirs prox rws cls p fs cl arbitrary: cl' and cl'
    rule: uncoverInNewBoard_forEachDirection.induct)
  case (1 dirs prox rws cls p cl)
  note u = "1.prems"(1) and ng = "1.prems"(2) and go = "1.prems"(3)
  from u ng obtain prev proximity where
    g: "getTile (newBoard cl) p = Inr prev" and a: "at2 prox p = Inr proximity"
    by (auto split: sum.splits)
  from u ng g a go have no: "userState prev \<noteq> open" by auto
  show ?case
  proof (cases "bombState prev = bomb")
    case True
    with g no have "bombToHit (newBoard cl) p" by (simp add: bombToHit_iff)
    with reveals.target[of dirs prox rws cls "newBoard cl" p]
    have 1: "bombHitAt dirs prox rws cls (newBoard cl) p p" by (simp add: bombHitAt_def)
    from u ng g a no True have "cl' = uncoverItem cl p prev" by simp
    with g True have 2: "hitBombAt (newBoard cl') p" by (simp add: hitBombAt_def getTile_set2_same)
    from 1 2 show ?thesis by blast
  next
    case nb: False
    let ?cl3 = "countItem (uncoverItem cl p prev) prev"
    from u ng g a no nb go have ex: "canExpandTile (changeItemToUncovered prev) proximity"
      by (auto split: if_splits)
    with u ng g a no nb have r: "forEachDirection dirs prox rws cls p dirs ?cl3 = Inr cl'" by simp
    have ng3: "\<not> gameOverVar ?cl3" using nb by simp
    have ngu: "\<not> gameOverVar (uncoverItem cl p prev)" using nb by simp
    from "1.IH"[OF ng g a no ngu ex r ng3 go] obtain f q where
      f: "f \<in> set dirs" "onBoard rws cls (f p)"
      and q: "bombHitAt dirs prox rws cls (newBoard ?cl3) (f p) q" "hitBombAt (newBoard cl') q"
      by blast
    have "getTile (newBoard cl) x = Inr t"
      if "getTile (newBoard ?cl3) x = Inr t" "userState t \<noteq> open" for x t
      using that g nb by (cases "x = p") (auto simp: getTile_set2_same getTile_set2_other)
    from bombHitAt_mono[OF this q(1)] have h: "bombHitAt dirs prox rws cls (newBoard cl) (f p) q" .
    have "expandsAt prox (newBoard cl) p"
      using g a no ex by (simp add: expandsAt_def canExpandTile_def)
    from bombHitAt_step[OF this f h] q(2) show ?thesis by blast
  qed
next
  case (2 dirs prox rws cls p cl)
  then show ?case by auto
next
  case (3 dirs prox rws cls p f fs cl)
  note r0 = "3.prems"(1) and ng = "3.prems"(2) and go = "3.prems"(3)
  show ?case
  proof (cases "onBoard rws cls (f p)")
    case True
    with r0 obtain cl1 where
      u: "uncoverInNewBoard dirs prox rws cls (f p) cl = Inr cl1"
      and r: "forEachDirection dirs prox rws cls p fs cl1 = Inr cl'"
      by (auto split: sum.splits)
    show ?thesis
    proof (cases "gameOverVar cl1")
      case go1: True
      with r have cl': "cl' = cl1" by (simp add: forEach_gameOver)
      from "3.IH"(1)[OF True u ng go1] obtain q where
        "bombHitAt dirs prox rws cls (newBoard cl) (f p) q" "hitBombAt (newBoard cl1) q"
        by blast
      with True cl' show ?thesis by (intro bexI[of _ f] conjI exI[of _ q]) simp_all
    next
      case ng1: False
      from "3.IH"(2)[OF True u r ng1 go] obtain f' q where
        f': "f' \<in> set fs" "onBoard rws cls (f' p)"
        and q: "bombHitAt dirs prox rws cls (newBoard cl1) (f' p) q" "hitBombAt (newBoard cl') q"
        by blast
      have "getTile (newBoard cl) x = Inr t"
        if "getTile (newBoard cl1) x = Inr t" "userState t \<noteq> open" for x t
        using uncover_untouched(1)[OF ng1 u that(1)] that(2) by auto
      from bombHitAt_mono[OF this q(1)] f' q(2) show ?thesis
        by (intro bexI[of _ f'] conjI exI[of _ q]) simp_all
    qed
  next
    case False
    with r0 have r: "forEachDirection dirs prox rws cls p fs cl = Inr cl'" by simp
    from "3.IH"(3)[OF False r ng go] obtain f' q where
      "f' \<in> set fs" "onBoard rws cls (f' p)"
      "bombHitAt dirs prox rws cls (newBoard cl) (f' p) q" "hitBombAt (newBoard cl') q"
      by blast
    then show ?thesis by (intro bexI[of _ f'] conjI exI[of _ q]) simp_all
  qed
qed

lemma uncover_gameOver_iff_bombHit:
  assumes "uncoverInNewBoard dirs prox rws cls p cl = Inr cl'" and "\<not> gameOverVar cl"
  shows "gameOverVar cl' \<longleftrightarrow> bombHit dirs prox rws cls (newBoard cl) p"
  using uncover_gameOver_hits(1)[OF assms] uncover_no_bombHit[OF assms(1)] bombHitI by blast

text \<open>
  When the proximities are consistent with the board, the only bomb that a reveal can
  come to is one at its target.
\<close>

lemma reveals_consistent:
  assumes "proximitiesConsistent dirs prox rws cls b" and "reveals dirs prox rws cls b p q"
  shows "q = p \<or> \<not> hasBombAt b q"
  using assms(2)
proof (induction rule: reveals.induct)
  case target
  show ?case by simp
next
  case (neighbour q f)
  from neighbour.hyps(2) have "at2 prox q = Inr (Some 0)" by (simp add: expandsAt_iff)
  from proximitiesConsistentD[OF assms(1) this neighbour.hyps(3,4)] show ?case by simp
qed

lemma bombHit_consistent:
  assumes "proximitiesConsistent dirs prox rws cls b"
  shows "bombHit dirs prox rws cls b p \<longleftrightarrow> bombToHit b p"
proof
  assume "bombHit dirs prox rws cls b p"
  then obtain q where r: "reveals dirs prox rws cls b p q" and h: "bombToHit b q"
    unfolding bombHit_def bombHitAt_def by blast
  from h have "hasBombAt b q" by (auto simp: bombToHit_iff hasBombAt_def)
  with reveals_consistent[OF assms r] h show "bombToHit b p" by auto
next
  assume "bombToHit b p"
  with reveals.target[of dirs prox rws cls b p] have "bombHitAt dirs prox rws cls b p p"
    by (simp add: bombHitAt_def)
  then show "bombHit dirs prox rws cls b p" by (rule bombHitI)
qed

text \<open>\<open>uncoveredCount\<close> goes up by one for every tile that is opened.\<close>

lemma countTiles_set2:
  assumes "getTile b p = Inr prev"
  shows "countTiles P (set2 b p v) + (if P prev then 1 else 0) = countTiles P b + (if P v then 1 else 0)"
proof -
  from assms have r: "nat (fst p) < length b"
    and c: "nat (snd p) < length (b ! nat (fst p))"
    and prev: "prev = b ! nat (fst p) ! nat (snd p)"
    by (auto simp: getTile_Inr)
  show ?thesis
    unfolding countTiles_def set2_def
    using sum_list_map_update[OF r, of "\<lambda>row. length (filter P row)"
            "(b ! nat (fst p))[nat (snd p) := v]"]
          filter_update_count[OF c, of P v]
    unfolding prev by (simp split: if_splits)
qed

lemma uncover_counts:
  assumes "uncoverInNewBoard dirs prox rws cls p cl = Inr cl'"
  shows "uncoveredCountVar cl' - int (openTiles (newBoard cl'))
       = uncoveredCountVar cl - int (openTiles (newBoard cl))"
proof -
  let ?J = "\<lambda>c. uncoveredCountVar c - int (openTiles (newBoard c))
                  = uncoveredCountVar cl - int (openTiles (newBoard cl))"
  have step: "?J (uncoverItem c p' prev)"
    if "?J c" "getTile (newBoard c) p' = Inr prev" "userState prev \<noteq> open" "bombState prev = bomb"
    for c p' prev
    using that countTiles_set2[OF that(2), of "\<lambda>t. userState t = open" "changeItemToUncovered prev"]
    by (simp add: openTiles_def)
  have count: "?J (countItem (uncoverItem c p' prev) prev)"
    if "?J c" "getTile (newBoard c) p' = Inr prev" "userState prev \<noteq> open" "bombState prev \<noteq> bomb"
    for c p' prev
    using that countTiles_set2[OF that(2), of "\<lambda>t. userState t = open" "changeItemToUncovered prev"]
    by (simp add: openTiles_def)
  show ?thesis
    using uncover_invariant(1)[where J = ?J, OF _ _ _ assms] step count by simp
qed

text \<open>\<open>uncoverTile\<close> at a bomb after the first move, and at a tile that does not expand.\<close>

lemma uncoverTile_bomb:
  assumes "canPlayForGameState (gameState s)" and "movesCount s \<noteq> 0"
    and "getTile (board s) p = Inr item" and "userState item \<noteq> open" and "bombState item = bomb"
    and "at2 (proximities s) p = Inr proximity"
  shows "uncoverTile env ps p s =
           Some (Inr (Some (s\<lparr>board := set2 (board s) p (item\<lparr>userState := hitBomb\<rparr>),
                               gameState := gameOver, movesCount := movesCount s + 1,
                               finishedAt := Some (now env)\<rparr>)))"
  using assms
  by (simp add: uncoverTile_def boardForMove_def uncoverOnBoard_def uncoverResult_def Let_def
      changeItemToUncovered_def uncoverItem_def)

lemma uncoverTile_no_expansion:
  assumes "canPlayForGameState (gameState s)"
    and "getTile (board s) p = Inr item" and "userState item \<noteq> open" and "bombState item = blank"
    and "at2 (proximities s) p = Inr proximity" and "proximity \<noteq> Some 0"
  shows "uncoverTile env ps p s =
           Some (Inr (Some (s\<lparr>board := set2 (board s) p (item\<lparr>userState := open\<rparr>),
               gameState := (if uncoveredCount s + 1 + bombsCount s = snapshot.columns s * snapshot.rows s
                             then winner else playing),
               uncoveredCount := uncoveredCount s + 1,
               flagsCount := (if userState item = flag then flagsCount s - 1 else flagsCount s),
               movesCount := movesCount s + 1,
               finishedAt := (if uncoveredCount s + 1 + bombsCount s = snapshot.columns s * snapshot.rows s
                              then Some (now env) else None)\<rparr>)))"
proof -
  have loop: "boardForMove env ps p s = Some (Inr (board s, proximities s))"
    using assms(2,4) by (auto simp: boardForMove_def firstMoveBoard.simps[of env ps p 0])
  show ?thesis
    using assms
    by (simp add: uncoverTile_def loop uncoverOnBoard_def uncoverResult_def Let_def
        changeItemToUncovered_def uncoverItem_def countItem_def canExpandTile_def)
qed

lemma uncoverTile_state:
  assumes r: "uncoverTile env ps p s = Some (Inr (Some s'))"
  obtains b prox where "boardForMove env ps p s = Some (Inr (b, prox))"
    and "canPlayForGameState (gameState s)"
    and "movesCount s \<noteq> 0 \<or> \<not> hasBombAt (board s) p \<Longrightarrow> b = board s \<and> prox = proximities s"
    and "snapshot.columns s' = snapshot.columns s" and "snapshot.rows s' = snapshot.rows s"
    and "bombsCount s' = bombsCount s" and "movesCount s' = movesCount s + 1"
    and "uncoveredCount s' = uncoveredCount s + (int (openTiles (board s')) - int (openTiles b))"
    and "gameState s' = gameOver
           \<longleftrightarrow> bombHit (allDirections env) prox (snapshot.rows s) (snapshot.columns s) b p"
    and "gameState s' = gameOver \<Longrightarrow>
           \<exists>q. bombHitAt (allDirections env) prox (snapshot.rows s) (snapshot.columns s) b p q
              \<and> hitBombAt (board s') q"
    and "proximitiesConsistent (allDirections env) prox (snapshot.rows s) (snapshot.columns s) b \<Longrightarrow>
           gameState s' = gameOver \<longleftrightarrow> bombToHit b p"
    and "gameState s' = winner
           \<longleftrightarrow> \<not> bombHit (allDirections env) prox (snapshot.rows s) (snapshot.columns s) b p
               \<and> uncoveredCount s' + bombsCount s' = snapshot.columns s' * snapshot.rows s'"
    and "gameState s' = playing
           \<longleftrightarrow> \<not> bombHit (allDirections env) prox (snapshot.rows s) (snapshot.columns s) b p
               \<and> uncoveredCount s' + bombsCount s' \<noteq> snapshot.columns s' * snapshot.rows s'"
    and "\<And>env' ps' p'. gameState s' = winner \<Longrightarrow> uncoverTile env' ps' p' s' = Some (Inr None)"
proof -
  from r obtain bp cl where
    pl: "canPlayForGameState (gameState s)"
    and bp: "boardForMove env ps p s = Some (Inr bp)"
    and u: "uncoverInNewBoard (allDirections env) (snd bp) (snapshot.rows s) (snapshot.columns s) p
           \<lparr>newBoard = copyBoard (fst bp), gameOverVar = False,
            uncoveredCountVar = uncoveredCount s, flagsCountVar = flagsCount s\<rparr> = Inr cl"
    and s': "s' = uncoverResult env s (snd bp) cl"
    by (rule uncoverTile_returns)
  obtain b prox where [simp]: "bp = (b, prox)" by (cases bp)
  from uncover_gameOver_iff_bombHit[OF u]
  have g: "gameOverVar cl \<longleftrightarrow> bombHit (allDirections env) prox (snapshot.rows s) (snapshot.columns s) b p"
    by simp
  from uncover_gameOver_hits(1)[OF u]
  have h: "gameOverVar cl \<Longrightarrow>
      \<exists>q. bombHitAt (allDirections env) prox (snapshot.rows s) (snapshot.columns s) b p q
         \<and> hitBombAt (newBoard cl) q"
    by simp
  from uncover_counts[OF u]
  have c: "uncoveredCountVar cl = uncoveredCount s + (int (openTiles (newBoard cl)) - int (openTiles b))"
    by simp
  show ?thesis
  proof (rule that[of b prox])
    show "boardForMove env ps p s = Some (Inr (b, prox))" using bp by simp
    show "canPlayForGameState (gameState s)" by fact
    show "b = board s \<and> prox = proximities s" if "movesCount s \<noteq> 0 \<or> \<not> hasBombAt (board s) p"
      using that bp
      by (auto simp: boardForMove_def firstMoveBoard.simps[of env ps p 0] hasBombAt_def
          split: sum.splits if_splits)
    show "snapshot.columns s' = snapshot.columns s" "snapshot.rows s' = snapshot.rows s"
      "bombsCount s' = bombsCount s" "movesCount s' = movesCount s + 1"
      by (simp_all add: s')
    show "uncoveredCount s' = uncoveredCount s + (int (openTiles (board s')) - int (openTiles b))"
      using c by (simp add: s')
    show "gameState s' = gameOver
           \<longleftrightarrow> bombHit (allDirections env) prox (snapshot.rows s) (snapshot.columns s) b p"
      using g by (simp add: s')
    show "\<exists>q. bombHitAt (allDirections env) prox (snapshot.rows s) (snapshot.columns s) b p q
              \<and> hitBombAt (board s') q" if "gameState s' = gameOver"
      using that h by (simp add: s' split: if_splits)
    show "gameState s' = gameOver \<longleftrightarrow> bombToHit b p"
      if "proximitiesConsistent (allDirections env) prox (snapshot.rows s) (snapshot.columns s) b"
      using g bombHit_consistent[OF that, of p] by (simp add: s')
    show "gameState s' = winner
           \<longleftrightarrow> \<not> bombHit (allDirections env) prox (snapshot.rows s) (snapshot.columns s) b p
               \<and> uncoveredCount s' + bombsCount s' = snapshot.columns s' * snapshot.rows s'"
      using g by (simp add: s')
    show "gameState s' = playing
           \<longleftrightarrow> \<not> bombHit (allDirections env) prox (snapshot.rows s) (snapshot.columns s) b p
               \<and> uncoveredCount s' + bombsCount s' \<noteq> snapshot.columns s' * snapshot.rows s'"
      using g by (simp add: s')
    show "uncoverTile env' ps' p' s' = Some (Inr None)" if "gameState s' = winner" for env' ps' p'
      using that by (simp add: uncoverTile_def canPlayForGameState_def)
  qed
qed

subsection \<open>The first-move loop\<close>

lemma firstMoveBoard_result_aux:
  assumes "firstMoveBoard env ps p k bp = Some y"
  shows "\<forall>bp'. y = Inr bp' \<longrightarrow>
     (\<exists>item. getTile (fst bp') p = Inr item \<and> bombState item \<noteq> bomb)
     \<and> (bp' = bp \<or> (\<exists>j ns. k \<le> j \<and> restart env j ps = Inr ns \<and> bp' = (board ns, proximities ns)))"
proof (rule firstMoveBoard.raw_induct[OF _ assms], goal_cases)
  case (1 f env ps p k bp y)
  note IH = "1"(1) and eq = "1"(2)
  show ?case
  proof (intro allI impI)
    fix bp' assume y: "y = Inr bp'"
    from eq y obtain item where g: "getTile (fst bp) p = Inr item"
      by (auto split: sum.splits)
    show "(\<exists>item. getTile (fst bp') p = Inr item \<and> bombState item \<noteq> bomb)
     \<and> (bp' = bp \<or> (\<exists>j ns. k \<le> j \<and> restart env j ps = Inr ns \<and> bp' = (board ns, proximities ns)))"
    proof (cases "bombState item = bomb")
      case False
      with eq g y show ?thesis by auto
    next
      case True
      with eq g y obtain ns where r: "restart env k ps = Inr ns"
        and f: "f env ps p (Suc k) (board ns, proximities ns) = Some (Inr bp')"
        by (auto split: sum.splits)
      from IH[OF f] have
        a: "\<exists>item. getTile (fst bp') p = Inr item \<and> bombState item \<noteq> bomb"
        and b: "bp' = (board ns, proximities ns) \<or>
          (\<exists>j ns. Suc k \<le> j \<and> restart env j ps = Inr ns \<and> bp' = (board ns, proximities ns))"
        by auto
      from b r have "\<exists>j ns. k \<le> j \<and> restart env j ps = Inr ns \<and> bp' = (board ns, proximities ns)"
        by (metis Suc_leD le_refl)
      with a show ?thesis by simp
    qed
  qed
qed

lemma firstMoveBoard_result:
  "firstMoveBoard env ps p k bp = Some (Inr bp') \<Longrightarrow>
     (\<exists>item. getTile (fst bp') p = Inr item \<and> bombState item \<noteq> bomb)
     \<and> (bp' = bp \<or> (\<exists>j ns. k \<le> j \<and> restart env j ps = Inr ns \<and> bp' = (board ns, proximities ns)))"
  using firstMoveBoard_result_aux by blast

lemma firstMoveBoard_never_aux:
  assumes "firstMoveBoard env ps p k bp = Some y"
  shows "\<not> (hasBombAt (fst bp) p \<and> (\<forall>n\<ge>k. \<exists>ns. restart env n ps = Inr ns \<and> hasBombAt (board ns) p))"
proof (rule firstMoveBoard.raw_induct[OF _ assms], goal_cases)
  case (1 f env ps p k bp y)
  note IH = "1"(1) and eq = "1"(2)
  show ?case
  proof
    assume a: "hasBombAt (fst bp) p \<and> (\<forall>n\<ge>k. \<exists>ns. restart env n ps = Inr ns \<and> hasBombAt (board ns) p)"
    then obtain ns where r: "restart env k ps = Inr ns" and b: "hasBombAt (board ns) p" by auto
    from a r eq have "f env ps p (Suc k) (board ns, proximities ns) = Some y"
      by (auto simp: hasBombAt_def split: sum.splits)
    from IH[OF this] a b show False by (auto intro: Suc_leD)
  qed
qed

lemma firstMoveBoard_never:
  "hasBombAt (fst bp) p \<Longrightarrow> (\<And>n. \<exists>ns. restart env n ps = Inr ns \<and> hasBombAt (board ns) p) \<Longrightarrow>
     firstMoveBoard env ps p k bp = None"
  using firstMoveBoard_never_aux[of env ps p k bp] by (cases "firstMoveBoard env ps p k bp") auto

lemma restart_covered:
  assumes "restart env k ps = Inr ns"
  shows "list_all (list_all (\<lambda>item. userState item = covered)) (board ns)"
    and "proximities ns = countProximities env (board ns)"
  using assms
  by (auto simp: restart_def Let_def times_def list_all_iff split: option.splits)

subsection \<open>The proximities of the specification\<close>

lemma specCountProximities_nth:
  assumes "r < length b" and "c < length (b ! r)"
  shows "r < length (specCountProximities b)" and "c < length (specCountProximities b ! r)"
    and "specCountProximities b ! r ! c
       = int (length (filter (\<lambda>f. hasBombAt b (f (int r, int c))) specAllDirections))"
  using assms by (simp_all add: specCountProximities_def nth_enumerate_eq)

lemma specCountProximities_length:
  "length (specCountProximities b) = length b"
  "r < length b \<Longrightarrow> length (specCountProximities b ! r) = length (b ! r)"
  by (simp_all add: specCountProximities_def nth_enumerate_eq)

lemma specCountProximities_consistent:
  "proximitiesConsistent specAllDirections (specCountProximities b) rws cls b"
proof -
  have "\<not> hasBombAt b (f (int r, int c))"
    if r: "r < length (specCountProximities b)" and c: "c < length (specCountProximities b ! r)"
      and v: "specCountProximities b ! r ! c = 0" and f: "f \<in> set specAllDirections" for r c f
  proof -
    from r have r': "r < length b" by (simp add: specCountProximities_length)
    with c have c': "c < length (b ! r)" by (simp add: specCountProximities_length)
    from v specCountProximities_nth(3)[OF r' c']
    have "filter (\<lambda>f. hasBombAt b (f (int r, int c))) specAllDirections = []" by simp
    with f show ?thesis by (simp add: filter_empty_conv)
  qed
  then show ?thesis
    unfolding proximitiesConsistent_def list_all_iff
    by (auto simp: in_set_enumerate_eq)
qed

subsection \<open>The store\<close>

lemma extends_refl [simp]: "extends h h"
  by (simp add: extends_def)

lemma extends_trans: "extends h h1 \<Longrightarrow> extends h1 h2 \<Longrightarrow> extends h h2"
  unfolding extends_def
  by (metis (no_types, lifting) le_trans min.absorb2 take_take min.commute)

lemma extends_alloc: "alloc h obj = (a, h') \<Longrightarrow> extends h h' \<and> a = length h \<and> length h' = Suc (length h)"
  by (auto simp: alloc_def extends_def)

lemma extends_update: "length h \<le> a \<Longrightarrow> extends h h' \<Longrightarrow> extends h (h'[a := obj])"
  by (simp add: extends_def)

lemma deref_extends:
  assumes "extends h h'" and "a < length h"
  shows "deref h' a = deref h a"
proof -
  from assms have "h' ! a = take (length h) h' ! a" by simp
  with assms show ?thesis by (simp add: deref_def extends_def)
qed

lemma sliceRows_frame:
  "sliceRows h ras = (r, h') \<Longrightarrow>
     extends h h' \<and> (\<forall>nas. r = Inr nas \<longrightarrow> (\<forall>na\<in>set nas. length h \<le> na))"
proof (induction ras arbitrary: h r h')
  case Nil
  then show ?case by auto
next
  case (Cons ra ras)
  show ?case
  proof (cases "deref h ra")
    case None
    with Cons.prems show ?thesis by auto
  next
    case (Some obj)
    show ?thesis
    proof (cases obj)
      case (Rows x)
      with Some Cons.prems show ?thesis by auto
    next
      case (Cells cs)
      obtain na h1 where al: "alloc h (Cells cs) = (na, h1)" by (cases "alloc h (Cells cs)")
      obtain r2 h2 where sl: "sliceRows h1 ras = (r2, h2)" by (cases "sliceRows h1 ras")
      from extends_alloc[OF al] have e1: "extends h h1" and na: "na = length h"
        and l1: "length h1 = Suc (length h)" by auto
      from Cons.IH[OF sl] have e2: "extends h1 h2"
        and f2: "\<And>nas. r2 = Inr nas \<Longrightarrow> \<forall>na\<in>set nas. length h1 \<le> na" by auto
      from Some Cells al sl Cons.prems have res: "h' = h2"
        "r = (case r2 of Inl e \<Rightarrow> Inl e | Inr nas \<Rightarrow> Inr (na # nas))"
        by (auto split: sum.splits)
      show ?thesis
        using extends_trans[OF e1 e2] f2 na l1 res by (auto split: sum.splits)
    qed
  qed
qed

lemma copyBoardS_frame:
  assumes "copyBoardS h a = (r, h')"
  shows "extends h h'"
    and "r = Inr na \<Longrightarrow> length h \<le> na \<and> (\<exists>nas. deref h' na = Some (Rows nas) \<and> (\<forall>ra\<in>set nas. length h \<le> ra))"
proof -
  show "extends h h'"
    using assms sliceRows_frame
    by (fastforce simp: copyBoardS_def dest: extends_alloc intro: extends_trans
        split: option.splits object.splits prod.splits sum.splits)
  assume r: "r = Inr na"
  with assms obtain ras nas h1 where d: "deref h a = Some (Rows ras)"
    and sl: "sliceRows h ras = (Inr nas, h1)" and al: "alloc h1 (Rows nas) = (na, h')"
    by (auto simp: copyBoardS_def split: option.splits object.splits prod.splits sum.splits)
  from sliceRows_frame[OF sl] have e1: "extends h h1" and f: "\<forall>ra\<in>set nas. length h \<le> ra" by auto
  from al have "na = length h1" "deref h' na = Some (Rows nas)" by (auto simp: alloc_def deref_def)
  with e1 f show "length h \<le> na \<and> (\<exists>nas. deref h' na = Some (Rows nas) \<and> (\<forall>ra\<in>set nas. length h \<le> ra))"
    by (auto simp: extends_def)
qed

lemma uncoverS_invariant:
  assumes step: "\<And>cl p prev. J cl \<Longrightarrow> J (uncoverItemS cl p prev)"
    and count: "\<And>cl prev. J cl \<Longrightarrow> J (countItemS cl prev)"
  shows "J cl \<Longrightarrow> uncoverInNewBoardS n dirs prox rws cls p cl = (st, cl') \<Longrightarrow> J cl'"
    and "J cl \<Longrightarrow> forEachDirectionS n dirs prox rws cls p fs cl = (st, cl') \<Longrightarrow> J cl'"
proof (induction n dirs prox rws cls p cl and n dirs prox rws cls p fs cl arbitrary: st cl' and st cl'
    rule: uncoverInNewBoardS_forEachDirectionS.induct)
  case (1 dirs prox rws cls p cl)
  then show ?case by simp
next
  case (2 n dirs prox rws cls p cl)
  show ?case
  proof (cases "gameOverS cl")
    case True
    with "2.prems" show ?thesis by simp
  next
    case False
    show ?thesis
    proof (cases "getTileS (store cl) (newBoardRef cl) p")
      case (Inl e)
      with False "2.prems" show ?thesis by simp
    next
      case (Inr prev)
      show ?thesis
      proof (cases "at2 prox p")
        case (Inl e)
        with False \<open>getTileS (store cl) (newBoardRef cl) p = Inr prev\<close> "2.prems" show ?thesis by simp
      next
        case a: (Inr proximity)
        note J1 = step[OF "2.prems"(1), of p prev]
        note J3 = count[OF J1, of prev]
        show ?thesis
        proof (cases "userState prev \<noteq> open \<and> \<not> gameOverS (uncoverItemS cl p prev)
                        \<and> canExpandTile (changeItemToUncovered prev) proximity")
          case True
          with False Inr a "2.prems"
          have "forEachDirectionS n dirs prox rws cls p dirs (countItemS (uncoverItemS cl p prev) prev) = (st, cl')"
            by simp
          from "2.IH"[OF False Inr a _ _ _ J3 this] True show ?thesis by simp
        next
          case no: False
          with False Inr a "2.prems" J1 J3 show ?thesis by (auto split: if_splits)
        qed
      qed
    qed
  qed
next
  case (3 n dirs prox rws cls p cl)
  then show ?case by simp
next
  case (4 n dirs prox rws cls p f fs cl)
  show ?case
  proof (cases "onBoard rws cls (f p)")
    case False
    with "4.prems" "4.IH"(3)[OF False] show ?thesis by simp
  next
    case True
    obtain st1 cl1 where u: "uncoverInNewBoardS n dirs prox rws cls (f p) cl = (st1, cl1)"
      by (cases "uncoverInNewBoardS n dirs prox rws cls (f p) cl")
    from "4.IH"(1)[OF True "4.prems"(1) u] have J1: "J cl1" .
    show ?thesis
    proof (cases "st1 = Done")
      case d: True
      with True u "4.prems" have "forEachDirectionS n dirs prox rws cls p fs cl1 = (st, cl')" by simp
      from "4.IH"(2)[OF True u[symmetric] d J1 this] show ?thesis .
    next
      case False
      with True u "4.prems" have "cl' = cl1" by (cases st1) auto
      with J1 show ?thesis by simp
    qed
  qed
qed

lemma cellsAt_extends: "extends h h' \<Longrightarrow> cellsAt h ra = Some cs \<Longrightarrow> cellsAt h' ra = Some cs"
  using deref_extends[of h h' ra]
  by (auto simp: cellsAt_def deref_def split: option.splits object.splits if_splits)

lemma those_eq_Some: "those xs = Some ys \<longleftrightarrow> xs = map Some ys"
  by (induction xs arbitrary: ys) (auto split: option.splits)

lemma readBoard_alt:
  "readBoard h a = Some b \<longleftrightarrow>
     (\<exists>ras. deref h a = Some (Rows ras) \<and> map (cellsAt h) ras = map Some b)"
  by (auto simp: readBoard_def those_eq_Some split: option.splits object.splits)

lemma map_cellsAt_extends:
  "extends h h' \<Longrightarrow> map (cellsAt h) ras = map Some b \<Longrightarrow> map (cellsAt h') ras = map Some b"
proof (induction ras arbitrary: b)
  case Nil
  then show ?case by simp
next
  case (Cons ra ras)
  then obtain cs b' where b: "b = cs # b'" and c: "cellsAt h ra = Some cs"
    and r: "map (cellsAt h) ras = map Some b'"
    by (cases b) auto
  from cellsAt_extends[OF Cons.prems(1) c] Cons.IH[OF Cons.prems(1) r] b show ?case by simp
qed

lemma readBoard_extends:
  assumes "extends h h'" and "readBoard h a = Some b"
  shows "readBoard h' a = Some b"
proof -
  from assms(2) obtain ras where d: "deref h a = Some (Rows ras)"
    and m: "map (cellsAt h) ras = map Some b"
    by (auto simp: readBoard_alt)
  from d have "a < length h" by (auto simp: deref_def split: if_splits)
  with d have d': "deref h' a = Some (Rows ras)" using deref_extends[OF assms(1)] by simp
  have "map (cellsAt h') ras = map Some b"
    using map_cellsAt_extends[OF assms(1) m] .
  with d' show ?thesis by (auto simp: readBoard_alt)
qed

lemma sliceRows_copies:
  "map (cellsAt h) ras = map Some b \<Longrightarrow>
     \<exists>nas h'. sliceRows h ras = (Inr nas, h') \<and> map (cellsAt h') nas = map Some b"
proof (induction ras arbitrary: h b)
  case Nil
  then show ?case by simp
next
  case (Cons ra ras)
  then obtain cs b' where b: "b = cs # b'" and c: "cellsAt h ra = Some cs"
    and r: "map (cellsAt h) ras = map Some b'"
    by (cases b) auto
  from c have d: "deref h ra = Some (Cells cs)"
    by (auto simp: cellsAt_def split: option.splits object.splits)
  let ?h1 = "h @ [Cells cs]"
  have e1: "extends h ?h1" by (simp add: extends_def)
  have r1: "map (cellsAt ?h1) ras = map Some b'"
    using map_cellsAt_extends[OF e1 r] .
  from Cons.IH[OF r1] obtain nas h' where sl: "sliceRows ?h1 ras = (Inr nas, h')"
    and m: "map (cellsAt h') nas = map Some b'" by auto
  from sliceRows_frame[OF sl] have e2: "extends ?h1 h'" by simp
  have "cellsAt ?h1 (length h) = Some cs" by (simp add: cellsAt_def deref_def)
  from cellsAt_extends[OF e2 this] have "cellsAt h' (length h) = Some cs" .
  with d sl m b show ?case by (simp add: alloc_def)
qed

lemma copyBoardS_copies:
  assumes "readBoard h a = Some b"
  shows "\<exists>na h'. copyBoardS h a = (Inr na, h') \<and> readBoard h' na = Some b"
proof -
  from assms obtain ras where d: "deref h a = Some (Rows ras)"
    and m: "map (cellsAt h) ras = map Some b"
    by (auto simp: readBoard_alt)
  from sliceRows_copies[OF m] obtain nas h1 where sl: "sliceRows h ras = (Inr nas, h1)"
    and m1: "map (cellsAt h1) nas = map Some b" by auto
  let ?h2 = "h1 @ [Rows nas]"
  have e: "extends h1 ?h2" by (simp add: extends_def)
  have m2: "map (cellsAt ?h2) nas = map Some b"
    using map_cellsAt_extends[OF e m1] .
  have "deref ?h2 (length h1) = Some (Rows nas)" by (simp add: deref_def)
  with m2 have "readBoard ?h2 (length h1) = Some b" by (auto simp: readBoard_alt)
  with d sl show ?thesis by (simp add: copyBoardS_def alloc_def)
qed

lemma rowRef_in_rows:
  "rowRef h a p = Some (ra, cs) \<Longrightarrow> \<exists>ras. deref h a = Some (Rows ras) \<and> ra \<in> set ras"
  by (auto simp: rowRef_def nth_opt_def split: option.splits object.splits if_splits)

lemma setTileS_frame:
  assumes "extends h h'" and "freshBoard h h' na"
  shows "extends h (setTileS h' na p v) \<and> freshBoard h (setTileS h' na p v) na"
proof (cases "rowRef h' na p")
  case None
  with assms show ?thesis by (simp add: setTileS_def)
next
  case (Some x)
  then obtain ra cs where x: "rowRef h' na p = Some (ra, cs)" by (cases x) auto
  from rowRef_in_rows[OF x] obtain ras where d: "deref h' na = Some (Rows ras)" and ra: "ra \<in> set ras"
    by auto
  with assms(2) have le: "length h \<le> ra" by (auto simp: freshBoard_def)
  have s: "setTileS h' na p v = h'[ra := Cells (cs[nat (snd p) := v])]" using x by (simp add: setTileS_def)
  have "deref (h'[ra := Cells (cs[nat (snd p) := v])]) na
      = (if ra = na then Some (Cells (cs[nat (snd p) := v])) else deref h' na)"
    using d by (auto simp: deref_def split: if_splits)
  with assms(2) have "freshBoard h (h'[ra := Cells (cs[nat (snd p) := v])]) na"
    by (auto simp: freshBoard_def)
  with extends_update[OF le assms(1)] s show ?thesis by simp
qed

lemma uncoverS_frame:
  assumes "extends h (store cl) \<and> freshBoard h (store cl) (newBoardRef cl)"
    and "uncoverInNewBoardS n dirs prox rws cls p cl = (st, cl')"
  shows "extends h (store cl') \<and> freshBoard h (store cl') (newBoardRef cl')
       \<and> newBoardRef cl' = newBoardRef cl"
proof -
  let ?J = "\<lambda>c :: storeClosure. extends h (store c) \<and> freshBoard h (store c) (newBoardRef c)
              \<and> newBoardRef c = newBoardRef cl"
  have "?J cl'"
  proof (rule uncoverS_invariant(1)[where J = ?J, OF _ _ _ assms(2)])
    fix c :: storeClosure and p prev assume J: "?J c"
    then have "extends h (store c)" "freshBoard h (store c) (newBoardRef c)" by blast+
    from setTileS_frame[OF this, of p "changeItemToUncovered prev"] J
    show "?J (uncoverItemS c p prev)"
      by (auto simp: uncoverItemS_def Let_def)
  next
    fix c :: storeClosure and prev assume "?J c"
    then show "?J (countItemS c prev)" by (auto simp: countItemS_def Let_def)
  next
    show "?J cl" using assms(1) by simp
  qed
  then show ?thesis by auto
qed

lemma uncoverOnBoardS_frame:
  assumes "readBoard h a = Some b"
    and "uncoverOnBoardS fuel dirs prox rws cls p uncovered flags a h = (st, cl)"
  shows "extends h (store cl)
       \<and> readBoard (store cl) a = Some b
       \<and> freshBoard h (store cl) (newBoardRef cl)
       \<and> (\<exists>h1. copyBoardS h a = (Inr (newBoardRef cl), h1)
                \<and> readBoard h1 (newBoardRef cl) = Some b)"
proof -
  from copyBoardS_copies[OF assms(1)] obtain na h1 where
    c: "copyBoardS h a = (Inr na, h1)" and r1: "readBoard h1 na = Some b" by auto
  let ?cl0 = "\<lparr>store = h1, newBoardRef = na, gameOverS = False,
             uncoveredCountS = uncovered, flagsCountS = flags\<rparr>"
  from c assms(2) have u: "uncoverInNewBoardS fuel dirs prox rws cls p ?cl0 = (st, cl)"
    by (simp add: uncoverOnBoardS_def)
  from copyBoardS_frame[OF c] have e1: "extends h h1" and f1: "freshBoard h h1 na"
    by (auto simp: freshBoard_def)
  from uncoverS_frame[OF _ u] e1 f1
  have e: "extends h (store cl)" and f: "freshBoard h (store cl) (newBoardRef cl)"
    and n: "newBoardRef cl = na" by auto
  from readBoard_extends[OF e assms(1)] e f n c r1 show ?thesis by simp
qed

lemma readBoard_rows:
  assumes "readBoard h a = Some b"
  shows "\<exists>ras. deref h a = Some (Rows ras) \<and> length ras = length b
           \<and> (\<forall>i<length b. cellsAt h (ras ! i) = Some (b ! i))"
proof -
  from assms obtain ras where d: "deref h a = Some (Rows ras)"
    and m: "map (cellsAt h) ras = map Some b"
    by (auto simp: readBoard_alt)
  from m have l: "length ras = length b" by (metis length_map)
  have "cellsAt h (ras ! i) = Some (b ! i)" if "i < length b" for i
    using m that l by (metis nth_map)
  with d l show ?thesis by blast
qed

lemma rowRef_readBoard:
  assumes "readBoard h a = Some b"
  shows "rowRef h a p =
     (if 0 \<le> fst p \<and> nat (fst p) < length b
      then Some (the (case deref h a of Some (Rows ras) \<Rightarrow> Some (ras ! nat (fst p)) | _ \<Rightarrow> None),
                 b ! nat (fst p))
      else None)"
proof -
  from readBoard_rows[OF assms] obtain ras where d: "deref h a = Some (Rows ras)"
    and l: "length ras = length b"
    and c: "\<And>i. i < length b \<Longrightarrow> cellsAt h (ras ! i) = Some (b ! i)"
    by blast
  show ?thesis
  proof (cases "0 \<le> fst p \<and> nat (fst p) < length b")
    case True
    with c[of "nat (fst p)"] have "deref h (ras ! nat (fst p)) = Some (Cells (b ! nat (fst p)))"
      by (auto simp: cellsAt_def split: option.splits object.splits)
    with True d l show ?thesis by (auto simp: rowRef_def nth_opt_def)
  next
    case False
    with d l show ?thesis by (auto simp: rowRef_def nth_opt_def)
  qed
qed

lemma getTileS_readBoard:
  "readBoard h a = Some b \<Longrightarrow> getTileS h a p = getTile b p"
  by (auto simp: getTileS_def rowRef_readBoard getTile_def at2_def nth_opt_def split: option.splits)

lemma setTileS_readBoard:
  assumes rb: "readBoard h a = Some b" and dr: "distinctRows h a" and g: "getTile b p = Inr prev"
  shows "readBoard (setTileS h a p v) a = Some (set2 b p v) \<and> distinctRows (setTileS h a p v) a"
proof -
  from readBoard_rows[OF rb] obtain ras where d: "deref h a = Some (Rows ras)"
    and l: "length ras = length b"
    and c: "\<And>i. i < length b \<Longrightarrow> cellsAt h (ras ! i) = Some (b ! i)"
    by blast
  from dr d have dist: "distinct ras" and na: "a \<notin> set ras" by (auto simp: distinctRows_def)
  from g have r: "0 \<le> fst p" "nat (fst p) < length b" by (auto simp: getTile_Inr)
  let ?r = "nat (fst p)" and ?h' = "h[ras ! nat (fst p) := Cells ((b ! nat (fst p))[nat (snd p) := v])]"
  have s: "setTileS h a p v = ?h'"
    using rb r d by (simp add: setTileS_def rowRef_readBoard)
  have ra_in: "ras ! ?r \<in> set ras" using r l by simp
  with na have ne: "ras ! ?r \<noteq> a" by auto
  have ra_lt: "ras ! ?r < length h"
    using c[OF r(2)] by (auto simp: cellsAt_def deref_def split: if_splits)
  have d': "deref ?h' a = Some (Rows ras)"
    using d ne by (auto simp: deref_def split: if_splits)
  have cells: "cellsAt ?h' (ras ! i) = Some (set2 b p v ! i)" if i: "i < length b" for i
  proof (cases "i = ?r")
    case True
    with ra_lt r show ?thesis by (simp add: cellsAt_def deref_def set2_def)
  next
    case False
    with dist i r l have "ras ! i \<noteq> ras ! ?r" by (simp add: nth_eq_iff_index_eq)
    with c[OF i] False show ?thesis
      by (auto simp: cellsAt_def deref_def set2_def split: if_splits)
  qed
  have "map (cellsAt ?h') ras = map Some (set2 b p v)"
    using l cells by (auto simp: list_eq_iff_nth_eq set2_def)
  with d' have "readBoard ?h' a = Some (set2 b p v)" by (auto simp: readBoard_alt)
  moreover from d' dist na have "distinctRows ?h' a" by (simp add: distinctRows_def)
  ultimately show ?thesis by (simp add: s)
qed

lemma uncoverItemS_abs:
  assumes "readBoard (store c) (newBoardRef c) = Some b" and "distinctRows (store c) (newBoardRef c)"
    and "getTile b p = Inr prev"
  shows "readBoard (store (uncoverItemS c p prev)) (newBoardRef (uncoverItemS c p prev))
           = Some (newBoard (uncoverItem (absClosure c b) p prev))"
    and "distinctRows (store (uncoverItemS c p prev)) (newBoardRef (uncoverItemS c p prev))"
    and "absClosure (uncoverItemS c p prev) (newBoard (uncoverItem (absClosure c b) p prev))
           = uncoverItem (absClosure c b) p prev"
    and "newBoardRef (uncoverItemS c p prev) = newBoardRef c"
  using setTileS_readBoard[OF assms, of "changeItemToUncovered prev"]
  by (simp_all add: uncoverItemS_def uncoverItem_def absClosure_def Let_def)

lemma countItemS_abs:
  "absClosure (countItemS c prev) b = countItem (absClosure c b) prev"
  "store (countItemS c prev) = store c" "newBoardRef (countItemS c prev) = newBoardRef c"
  by (simp_all add: countItemS_def countItem_def absClosure_def Let_def)

lemma uncoverS_simulates:
  "readBoard (store c) (newBoardRef c) = Some b \<Longrightarrow> distinctRows (store c) (newBoardRef c) \<Longrightarrow>
     simulates c (uncoverInNewBoardS n dirs prox rws cls p c)
       (uncoverInNewBoard dirs prox rws cls p (absClosure c b))"
  "readBoard (store c) (newBoardRef c) = Some b \<Longrightarrow> distinctRows (store c) (newBoardRef c) \<Longrightarrow>
     simulates c (forEachDirectionS n dirs prox rws cls p fs c)
       (forEachDirection dirs prox rws cls p fs (absClosure c b))"
proof (induction n dirs prox rws cls p c and n dirs prox rws cls p fs c arbitrary: b and b
    rule: uncoverInNewBoardS_forEachDirectionS.induct)
  case (1 dirs prox rws cls p cl)
  then show ?case by (simp add: simulates_def)
next
  case (2 n dirs prox rws cls p cl)
  note rb = "2.prems"(1) and dr = "2.prems"(2)
  have same: "simulates cl (Done, cl) (Inr (absClosure cl b))"
    using rb dr by (auto simp: simulates_def)
  have go: "gameOverVar (absClosure cl b) = gameOverS cl" by (simp add: absClosure_def)
  have nb: "newBoard (absClosure cl b) = b" by (simp add: absClosure_def)
  show ?case
  proof (cases "gameOverS cl")
    case True
    with same go show ?thesis by simp
  next
    case ng: False
    note gt = getTileS_readBoard[OF rb, of p]
    show ?thesis
    proof (cases "getTile b p")
      case (Inl e)
      with ng gt go nb show ?thesis by (simp add: simulates_def)
    next
      case (Inr prev)
      show ?thesis
      proof (cases "at2 prox p")
        case (Inl e)
        with ng gt go nb Inr show ?thesis by (simp add: simulates_def)
      next
        case a: (Inr proximity)
        note ab = uncoverItemS_abs[OF rb dr Inr]
        let ?c1 = "uncoverItemS cl p prev" and ?v1 = "uncoverItem (absClosure cl b) p prev"
        have g1: "gameOverS ?c1 = gameOverVar ?v1"
          by (simp add: uncoverItemS_def Let_def changeItemToUncovered_def)
        show ?thesis
        proof (cases "userState prev = open")
          case True
          with ng gt go nb Inr a same show ?thesis by simp
        next
          case no: False
          show ?thesis
          proof (cases "gameOverS ?c1")
            case True
            have "simulates cl (Done, ?c1) (Inr ?v1)"
              using ab by (auto simp: simulates_def)
            with True ng gt go nb Inr a no g1 show ?thesis by simp
          next
            case ng1: False
            let ?c3 = "countItemS ?c1 prev" and ?v3 = "countItem ?v1 prev"
            have rb3: "readBoard (store ?c3) (newBoardRef ?c3) = Some (newBoard ?v1)"
              and dr3: "distinctRows (store ?c3) (newBoardRef ?c3)"
              and ab3: "absClosure ?c3 (newBoard ?v1) = ?v3"
              and nr3: "newBoardRef ?c3 = newBoardRef cl"
              using ab by (simp_all add: countItemS_abs)
            show ?thesis
            proof (cases "canExpandTile (changeItemToUncovered prev) proximity")
              case True
              from gt Inr have gtS: "getTileS (store cl) (newBoardRef cl) p = Inr prev" by simp
              have "simulates ?c3 (forEachDirectionS n dirs prox rws cls p dirs ?c3)
                  (forEachDirection dirs prox rws cls p dirs ?v3)"
                using "2.IH"[OF ng gtS a no ng1 True rb3 dr3] unfolding ab3 .
              then have "simulates cl (forEachDirectionS n dirs prox rws cls p dirs ?c3)
                  (forEachDirection dirs prox rws cls p dirs ?v3)"
                by (auto simp: simulates_def nr3 split: status.splits)
              with True ng ng1 gt go nb Inr a no g1 show ?thesis by simp
            next
              case False
              have "simulates cl (Done, ?c3) (Inr ?v3)"
                using rb3 dr3 ab3 nr3 by (auto simp: simulates_def)
              with False ng ng1 gt go nb Inr a no g1 show ?thesis by simp
            qed
          qed
        qed
      qed
    qed
  qed
next
  case (3 n dirs prox rws cls p cl)
  then show ?case by (auto simp: simulates_def)
next
  case (4 n dirs prox rws cls p f fs cl)
  note rb = "4.prems"(1) and dr = "4.prems"(2)
  show ?case
  proof (cases "onBoard rws cls (f p)")
    case False
    with "4.IH"(3)[OF False rb dr] show ?thesis by simp
  next
    case True
    obtain st1 c1 where u: "uncoverInNewBoardS n dirs prox rws cls (f p) cl = (st1, c1)"
      by (cases "uncoverInNewBoardS n dirs prox rws cls (f p) cl")
    from "4.IH"(1)[OF True rb dr] u
    have s1: "simulates cl (st1, c1) (uncoverInNewBoard dirs prox rws cls (f p) (absClosure cl b))"
      by simp
    show ?thesis
    proof (cases st1)
      case Done
      with s1 obtain b1 where rb1: "readBoard (store c1) (newBoardRef c1) = Some b1"
        and dr1: "distinctRows (store c1) (newBoardRef c1)"
        and nr1: "newBoardRef c1 = newBoardRef cl"
        and v1: "uncoverInNewBoard dirs prox rws cls (f p) (absClosure cl b) = Inr (absClosure c1 b1)"
        by (auto simp: simulates_def)
      from "4.IH"(2)[OF True u[symmetric] Done rb1 dr1]
      have "simulates c1 (forEachDirectionS n dirs prox rws cls p fs c1)
          (forEachDirection dirs prox rws cls p fs (absClosure c1 b1))" .
      then have "simulates cl (forEachDirectionS n dirs prox rws cls p fs c1)
          (forEachDirection dirs prox rws cls p fs (absClosure c1 b1))"
        by (auto simp: simulates_def nr1 split: status.splits)
      with True u Done v1 show ?thesis by simp
    next
      case (Threw e)
      with s1 True u show ?thesis by (simp add: simulates_def)
    next
      case OutOfFuel
      with True u show ?thesis by (simp add: simulates_def)
    qed
  qed
qed

lemma sliceRows_distinct:
  "sliceRows h ras = (Inr nas, h') \<Longrightarrow>
     distinct nas \<and> (\<forall>na\<in>set nas. length h \<le> na \<and> na < length h')"
proof (induction ras arbitrary: h nas h')
  case Nil
  then show ?case by auto
next
  case (Cons ra ras)
  from Cons.prems obtain cs where d: "deref h ra = Some (Cells cs)"
    by (auto split: option.splits object.splits)
  let ?h1 = "h @ [Cells cs]"
  from Cons.prems d obtain nas' where sl: "sliceRows ?h1 ras = (Inr nas', h')"
    and nas: "nas = length h # nas'"
    by (auto simp: alloc_def split: prod.splits sum.splits)
  from Cons.IH[OF sl] have dist: "distinct nas'"
    and rng: "\<forall>na\<in>set nas'. Suc (length h) \<le> na \<and> na < length h'" by auto
  from sliceRows_frame[OF sl] have "length ?h1 \<le> length h'" by (simp add: extends_def)
  then have "length h < length h'" by simp
  with dist rng nas show ?case by auto
qed

lemma copyBoardS_distinctRows:
  assumes "copyBoardS h a = (Inr na, h')"
  shows "distinctRows h' na"
proof -
  from assms obtain ras nas h1 where sl: "sliceRows h ras = (Inr nas, h1)"
    and al: "alloc h1 (Rows nas) = (na, h')"
    by (auto simp: copyBoardS_def split: option.splits object.splits prod.splits sum.splits)
  from sliceRows_distinct[OF sl] have "distinct nas" "\<forall>x\<in>set nas. x < length h1" by auto
  moreover from al have "na = length h1" "deref h' na = Some (Rows nas)"
    by (auto simp: alloc_def deref_def)
  ultimately show ?thesis by (auto simp: distinctRows_def)
qed

lemma uncoverOnBoardS_simulates:
  assumes "readBoard h a = Some b"
    and "uncoverOnBoardS fuel dirs prox rws cls p uncovered flags a h = (st, cl)"
  shows "(st = Done \<longrightarrow>
            (\<exists>b'. readBoard (store cl) (newBoardRef cl) = Some b'
                \<and> uncoverInNewBoard dirs prox rws cls p
                      \<lparr>newBoard = copyBoard b, gameOverVar = False,
                       uncoveredCountVar = uncovered, flagsCountVar = flags\<rparr>
                    = Inr \<lparr>newBoard = b', gameOverVar = gameOverS cl,
                           uncoveredCountVar = uncoveredCountS cl, flagsCountVar = flagsCountS cl\<rparr>))
       \<and> (\<forall>e. st = Threw e \<longrightarrow>
            uncoverInNewBoard dirs prox rws cls p
              \<lparr>newBoard = copyBoard b, gameOverVar = False,
               uncoveredCountVar = uncovered, flagsCountVar = flags\<rparr> = Inl e)"
proof -
  from copyBoardS_copies[OF assms(1)] obtain na h1 where
    c: "copyBoardS h a = (Inr na, h1)" and r1: "readBoard h1 na = Some b" by auto
  let ?c0 = "\<lparr>store = h1, newBoardRef = na, gameOverS = False,
             uncoveredCountS = uncovered, flagsCountS = flags\<rparr>"
  from c assms(2) have u: "uncoverInNewBoardS fuel dirs prox rws cls p ?c0 = (st, cl)"
    by (simp add: uncoverOnBoardS_def)
  have a0: "absClosure ?c0 b = \<lparr>newBoard = copyBoard b, gameOverVar = False,
                       uncoveredCountVar = uncovered, flagsCountVar = flags\<rparr>"
    by (simp add: absClosure_def)
  from uncoverS_simulates(1)[of ?c0 b fuel dirs prox rws cls p] r1 copyBoardS_distinctRows[OF c] u
  have "simulates ?c0 (st, cl) (uncoverInNewBoard dirs prox rws cls p (absClosure ?c0 b))"
    by simp
  then show ?thesis
    unfolding a0 by (auto simp: simulates_def absClosure_def split: status.splits)
qed

subsection \<open>Claims\<close>

text \<open>
  C1 (the code differs): the board \<open>restart\<close> builds should hold
  \<open>round(bombOdds * columns * rows)\<close> bombs, the markers read in row-major order at
  \<open>rowIndex * columns + columnIndex\<close>. Line 30 reads them at
  \<open>rowIndex * rows + columnIndex\<close>. With 3 columns, 2 rows and odds 1/2 the three bomb
  markers make four bombs on the board when the shuffle leaves them first: marker 2 is
  read for two cells and marker 5 for none. With 1 column, 2 rows and odds 1 both
  markers are bombs, whatever the shuffle does; the second row reads index 2, which is
  not there, and the board holds one bomb while \<open>bombsCount\<close> is 2.
\<close>

theorem restart_bomb_count_differs:
  "restart (exampleEnv (\<lambda>k xs. xs)) 0 (exampleProps 3 2 (1 / 2)) =
     Inr \<lparr>gameState = fresh, columns = 3, rows = 2,
          board = [[\<lparr>bombState = bomb, userState = covered\<rparr>,
                    \<lparr>bombState = bomb, userState = covered\<rparr>,
                    \<lparr>bombState = bomb, userState = covered\<rparr>],
                   [\<lparr>bombState = bomb, userState = covered\<rparr>,
                    \<lparr>bombState = blank, userState = covered\<rparr>,
                    \<lparr>bombState = blank, userState = covered\<rparr>]],
          proximities = [[2, 3, 1], [2, 4, 2]], bombsCount = 3, uncoveredCount = 0,
          flagsCount = 0, movesCount = 0, startedAt = None, finishedAt = None\<rparr>
   \<and> mathRound (1 / 2 * of_int (3 * 2)) = 3
   \<and> countTiles (\<lambda>item. bombState item = bomb)
        [[\<lparr>bombState = bomb, userState = covered\<rparr>,
          \<lparr>bombState = bomb, userState = covered\<rparr>,
          \<lparr>bombState = bomb, userState = covered\<rparr>],
         [\<lparr>bombState = bomb, userState = covered\<rparr>,
          \<lparr>bombState = blank, userState = covered\<rparr>,
          \<lparr>bombState = blank, userState = covered\<rparr>]] = 4
   \<and> restart (exampleEnv (\<lambda>k xs. xs)) 0 (exampleProps 1 2 1) =
     Inr \<lparr>gameState = fresh, columns = 1, rows = 2,
          board = [[\<lparr>bombState = bomb, userState = covered\<rparr>],
                   [\<lparr>bombState = blank, userState = covered\<rparr>]],
          proximities = [[0], [1]], bombsCount = 2, uncoveredCount = 0,
          flagsCount = 0, movesCount = 0, startedAt = None, finishedAt = None\<rparr>
   \<and> mathRound (1 * of_int (1 * 2)) = 2
   \<and> countTiles (\<lambda>item. bombState item = bomb)
        [[\<lparr>bombState = bomb, userState = covered\<rparr>], [\<lparr>bombState = blank, userState = covered\<rparr>]] = 1"
  by code_simp

text \<open>
  C2: on the first move (\<open>movesCount = 0\<close>), with the snapshot's proximities and the
  ones \<open>countProximities\<close> computes consistent with their boards, every snapshot
  \<open>uncoverTile\<close> returns has the targeted tile open and bomb-free and a game state
  other than gameOver. If the targeted cell holds no bomb the reveal runs on the
  snapshot's own board; if it holds one, the reveal runs on the first board, among those
  \<open>restart\<close> generates from the same props, whose targeted cell is bomb-free; and if
  every board \<open>restart\<close> generates has a bomb there, \<open>uncoverTile\<close> does not return.
\<close>

theorem first_move_never_hits_a_bomb:
  assumes "movesCount s = 0"
    and "proximitiesConsistent (allDirections env) (proximities s)
           (snapshot.rows s) (snapshot.columns s) (board s)"
    and "\<And>b. proximitiesConsistent (allDirections env) (countProximities env b)
           (snapshot.rows s) (snapshot.columns s) b"
  shows "(\<forall>s'. uncoverTile env ps p s = Some (Inr (Some s')) \<longrightarrow>
            gameState s' \<noteq> gameOver
            \<and> (\<exists>item. getTile (board s') p = Inr item \<and> userState item = open
                  \<and> bombState item = blank))
       \<and> (canPlayForGameState (gameState s) \<and> \<not> hasBombAt (board s) p \<longrightarrow>
            uncoverTile env ps p s =
              (case getTile (board s) p of
                 Inl e \<Rightarrow> Some (Inl e)
               | Inr item \<Rightarrow>
                   (case uncoverOnBoard env s p (board s, proximities s) of
                      Inl e \<Rightarrow> Some (Inl e) | Inr s' \<Rightarrow> Some (Inr (Some s')))))
       \<and> (\<forall>n ns. canPlayForGameState (gameState s) \<and> hasBombAt (board s) p
              \<and> firstSafeBoard env ps p n ns \<longrightarrow>
            uncoverTile env ps p s =
              (case uncoverOnBoard env s p (board ns, proximities ns) of
                 Inl e \<Rightarrow> Some (Inl e) | Inr s' \<Rightarrow> Some (Inr (Some s'))))
       \<and> (canPlayForGameState (gameState s) \<and> hasBombAt (board s) p
            \<and> (\<forall>n. \<exists>ns. restart env n ps = Inr ns \<and> hasBombAt (board ns) p) \<longrightarrow>
            uncoverTile env ps p s = None)"
proof -
  have safe: "gameState s' \<noteq> gameOver
            \<and> (\<exists>item. getTile (board s') p = Inr item \<and> userState item = open
                  \<and> bombState item = blank)"
    if ret: "uncoverTile env ps p s = Some (Inr (Some s'))" for s'
  proof -
    from ret obtain bp cl where
      bp: "boardForMove env ps p s = Some (Inr bp)"
      and u: "uncoverInNewBoard (allDirections env) (snd bp) (snapshot.rows s) (snapshot.columns s) p
             \<lparr>newBoard = copyBoard (fst bp), gameOverVar = False,
              uncoveredCountVar = uncoveredCount s, flagsCountVar = flagsCount s\<rparr> = Inr cl"
      and s': "s' = uncoverResult env s (snd bp) cl"
      by (rule uncoverTile_returns)
    from bp assms(1) have fm: "firstMoveBoard env ps p 0 (board s, proximities s) = Some (Inr bp)"
      by (simp add: boardForMove_def)
    from firstMoveBoard_result[OF fm] obtain item where
      g: "getTile (fst bp) p = Inr item" and nb: "bombState item \<noteq> bomb"
      and src: "bp = (board s, proximities s)
         \<or> (\<exists>j ns. restart env j ps = Inr ns \<and> bp = (board ns, proximities ns))"
      by auto
    from src have cons: "proximitiesConsistent (allDirections env) (snd bp)
             (snapshot.rows s) (snapshot.columns s) (fst bp)"
      using assms(2,3) by (auto simp: restart_covered(2))
    have nh: "\<not> hasBombAt (fst bp) p" using g nb by (simp add: hasBombAt_def)
    from uncover_no_bomb(1)[OF _ _ _ u] cons nh have ng: "\<not> gameOverVar cl" by simp
    from uncover_target_open[OF _ _ nb u] g
    have t: "getTile (newBoard cl) p = Inr (item\<lparr>userState := open\<rparr>)" by simp
    from nb have "bombState item = blank" by (cases "bombState item") auto
    with ng t show ?thesis
      by (simp add: s')
  qed
  have own: "uncoverTile env ps p s =
              (case getTile (board s) p of
                 Inl e \<Rightarrow> Some (Inl e)
               | Inr item \<Rightarrow>
                   (case uncoverOnBoard env s p (board s, proximities s) of
                      Inl e \<Rightarrow> Some (Inl e) | Inr s' \<Rightarrow> Some (Inr (Some s'))))"
    if a: "canPlayForGameState (gameState s) \<and> \<not> hasBombAt (board s) p"
    using assms(1) a
    by (auto simp: uncoverTile_def boardForMove_def hasBombAt_def
        firstMoveBoard.simps[of env ps p 0 "(board s, proximities s)"] split: sum.splits)
  have regen: "uncoverTile env ps p s =
              (case uncoverOnBoard env s p (board ns, proximities ns) of
                 Inl e \<Rightarrow> Some (Inl e) | Inr s' \<Rightarrow> Some (Inr (Some s')))"
    if a: "canPlayForGameState (gameState s) \<and> hasBombAt (board s) p
              \<and> firstSafeBoard env ps p n ns" for n ns
  proof -
    from a obtain item where r: "restart env n ps = Inr ns"
      and g: "getTile (board ns) p = Inr item" and nb: "bombState item \<noteq> bomb"
      by (auto simp: firstSafeBoard_def split: sum.splits)
    have before: "\<exists>nsj. restart env j ps = Inr nsj \<and> hasBombAt (board nsj) p" if "j < n" for j
    proof -
      from a that have "case restart env j ps of Inl _ \<Rightarrow> False | Inr nsj \<Rightarrow> hasBombAt (board nsj) p"
        by (simp add: firstSafeBoard_def list_all_iff)
      then show ?thesis by (cases "restart env j ps") simp_all
    qed
    have "firstMoveBoard env ps p 0 (board s, proximities s) = Some (Inr (board ns, proximities ns))"
      using firstMoveBoard_first_safe[of "(board s, proximities s)" p env 0 n ps ns item] a r g nb before
      by simp
    with a assms(1) show ?thesis
      by (simp add: uncoverTile_def boardForMove_def)
  qed
  have never: "uncoverTile env ps p s = None"
    if a: "canPlayForGameState (gameState s) \<and> hasBombAt (board s) p
            \<and> (\<forall>n. \<exists>ns. restart env n ps = Inr ns \<and> hasBombAt (board ns) p)"
    using a assms(1) firstMoveBoard_never[of "(board s, proximities s)" p env ps 0]
    by (simp add: uncoverTile_def boardForMove_def)
  from safe own regen never show ?thesis by blast
qed

theorem first_move_never_hits_a_bomb_witness:
  "movesCount exampleFresh = 0
   \<and> proximitiesConsistent (allDirections (exampleEnv (\<lambda>k xs. if k = 0 then xs else rev xs)))
        (proximities exampleFresh) 1 4 (board exampleFresh)
   \<and> (\<forall>b. proximitiesConsistent (allDirections (exampleEnv (\<lambda>k xs. if k = 0 then xs else rev xs)))
        (countProximities (exampleEnv (\<lambda>k xs. if k = 0 then xs else rev xs)) b) 1 4 b)
   \<and> canPlayForGameState (gameState exampleFresh)
   \<and> hasBombAt (board exampleFresh) (0, 0)
   \<and> firstSafeBoard (exampleEnv (\<lambda>k xs. if k = 0 then xs else rev xs)) (exampleProps 4 1 (1 / 4))
        (0, 0) 1 exampleRegenerated
   \<and> (\<exists>s'. uncoverTile (exampleEnv (\<lambda>k xs. if k = 0 then xs else rev xs))
              (exampleProps 4 1 (1 / 4)) (0, 0) exampleFresh = Some (Inr (Some s'))
          \<and> uncoverOnBoard (exampleEnv (\<lambda>k xs. if k = 0 then xs else rev xs)) exampleFresh (0, 0)
              (board exampleRegenerated, proximities exampleRegenerated) = Inr s'
          \<and> gameState s' \<noteq> gameOver
          \<and> (\<exists>item. getTile (board s') (0, 0) = Inr item \<and> userState item = open
                \<and> bombState item = blank))
   \<and> (\<forall>n. restart (exampleEnv (\<lambda>k xs. xs)) n (exampleProps 4 1 (1 / 4)) = Inr exampleFresh)
   \<and> uncoverTile (exampleEnv (\<lambda>k xs. xs)) (exampleProps 4 1 (1 / 4)) (0, 0) exampleFresh = None"
proof -
  let ?E = "exampleEnv (\<lambda>k xs. if k = 0 then xs else rev xs)" and ?P = "exampleProps 4 1 (1 / 4)"
  let ?I = "exampleEnv (\<lambda>k xs. xs)"
  have "restart ?I n ?P = restart ?I 0 ?P" for n
    by (simp add: restart_def exampleEnv_def exampleProps_def Let_def)
  moreover have "restart ?I 0 ?P = Inr exampleFresh" by code_simp
  ultimately have same: "restart ?I n ?P = Inr exampleFresh" for n by simp
  have i1: "proximitiesConsistent (allDirections ?I) (proximities exampleFresh)
      (snapshot.rows exampleFresh) (snapshot.columns exampleFresh) (board exampleFresh)"
    by code_simp
  have i2: "proximitiesConsistent (allDirections ?I) (countProximities ?I b)
      (snapshot.rows exampleFresh) (snapshot.columns exampleFresh) b" for b
    by (simp add: exampleEnv_def specCountProximities_consistent)
  have m: "movesCount exampleFresh = 0" by (simp add: exampleFresh_def)
  have dims: "snapshot.rows exampleFresh = 1" "snapshot.columns exampleFresh = 4"
    by (simp_all add: exampleFresh_def)
  have c1: "proximitiesConsistent (allDirections ?E) (proximities exampleFresh) 1 4 (board exampleFresh)"
    by code_simp
  have c2: "proximitiesConsistent (allDirections ?E) (countProximities ?E b) 1 4 b" for b
    by (simp add: exampleEnv_def specCountProximities_consistent)
  have pl: "canPlayForGameState (gameState exampleFresh)" by code_simp
  have hb: "hasBombAt (board exampleFresh) (0, 0)" by code_simp
  have fs: "firstSafeBoard ?E ?P (0, 0) 1 exampleRegenerated" by code_simp
  obtain s' where u: "uncoverOnBoard ?E exampleFresh (0, 0)
      (board exampleRegenerated, proximities exampleRegenerated) = Inr s'"
    by (cases "uncoverOnBoard ?E exampleFresh (0, 0)
      (board exampleRegenerated, proximities exampleRegenerated)") (simp_all, code_simp)
  note t = first_move_never_hits_a_bomb[of exampleFresh ?E ?P "(0, 0)", unfolded dims, OF m c1 c2]
  from t pl hb fs u have r: "uncoverTile ?E ?P (0, 0) exampleFresh = Some (Inr (Some s'))"
    by (metis (no_types, lifting) sum.simps(6))
  with t have "gameState s' \<noteq> gameOver
          \<and> (\<exists>item. getTile (board s') (0, 0) = Inr item \<and> userState item = open
                \<and> bombState item = blank)" by blast
  then have part1: "\<exists>s'. uncoverTile ?E ?P (0, 0) exampleFresh = Some (Inr (Some s'))
          \<and> uncoverOnBoard ?E exampleFresh (0, 0)
              (board exampleRegenerated, proximities exampleRegenerated) = Inr s'
          \<and> gameState s' \<noteq> gameOver
          \<and> (\<exists>item. getTile (board s') (0, 0) = Inr item \<and> userState item = open
                \<and> bombState item = blank)"
    using u r by blast
  from first_move_never_hits_a_bomb[of exampleFresh ?I ?P "(0, 0)", OF m i1 i2] pl hb same
  have part2: "uncoverTile ?I ?P (0, 0) exampleFresh = None" by blast
  from m c1 c2 pl hb fs part1 same part2 show ?thesis by blast
qed

text \<open>
  C3, as stated, fails: a second \<open>uncoverTile\<close> on an open tile returns
  \<open>movesCount + 1\<close>, as every call that gets past the game state check does (line 204).
\<close>

theorem uncoverTile_open_tile_counterexample:
  "canPlayForGameState (gameState exampleSnapshot)
   \<and> getTile (board exampleSnapshot) (0, 1) = Inr \<lparr>bombState = blank, userState = open\<rparr>
   \<and> movesCount exampleSnapshot = 1
   \<and> uncoverTile (exampleEnv (\<lambda>k xs. xs)) (exampleProps 4 1 (1 / 4)) (0, 1) exampleSnapshot
       = Some (Inr (Some (exampleSnapshot\<lparr>movesCount := 2\<rparr>)))"
  by code_simp

text \<open>
  C3, amended: in a playable game state, \<open>uncoverTile\<close> at a tile that is already open
  (after the first move, or on a tile that holds no bomb, so that the first-move loop
  does not run) returns the board, the proximities, \<open>uncoveredCount\<close> and \<open>flagsCount\<close>
  as they were, and \<open>movesCount + 1\<close>.
\<close>

theorem uncoverTile_open_tile:
  assumes "canPlayForGameState (gameState s)"
    and "getTile (board s) p = Inr item" and "userState item = open"
    and "at2 (proximities s) p = Inr proximity"
    and "movesCount s \<noteq> 0 \<or> bombState item \<noteq> bomb"
  shows "\<exists>s'. uncoverTile env ps p s = Some (Inr (Some s'))
           \<and> board s' = board s \<and> proximities s' = proximities s
           \<and> uncoveredCount s' = uncoveredCount s \<and> flagsCount s' = flagsCount s
           \<and> movesCount s' = movesCount s + 1"
proof -
  have loop: "boardForMove env ps p s = Some (Inr (board s, proximities s))"
    using assms(2,5) by (auto simp: boardForMove_def firstMoveBoard.simps[of env ps p 0])
  show ?thesis
    using assms(1-4)
    by (simp add: uncoverTile_def loop uncoverOnBoard_def copyBoard_def uncoverResult_def Let_def)
qed

theorem uncoverTile_open_tile_witness:
  "\<exists>s'. uncoverTile (exampleEnv (\<lambda>k xs. xs)) (exampleProps 4 1 (1 / 4)) (0, 1) exampleSnapshot
          = Some (Inr (Some s'))
      \<and> board s' = board exampleSnapshot \<and> proximities s' = proximities exampleSnapshot
      \<and> uncoveredCount s' = 1 \<and> flagsCount s' = 0 \<and> movesCount s' = 2"
proof -
  have 1: "canPlayForGameState (gameState exampleSnapshot)"
    by (simp add: exampleSnapshot_def canPlayForGameState_def)
  have 2: "getTile (board exampleSnapshot) (0, 1) = Inr \<lparr>bombState = blank, userState = open\<rparr>"
    by (simp add: exampleSnapshot_def getTile_def at2_def nth_opt_def)
  have 3: "at2 (proximities exampleSnapshot) (0, 1) = Inr (Some 1)"
    by (simp add: exampleSnapshot_def at2_def nth_opt_def)
  have 4: "movesCount exampleSnapshot \<noteq> 0 \<or> bombState \<lparr>bombState = blank, userState = open\<rparr> \<noteq> bomb"
    by simp
  have 5: "uncoveredCount exampleSnapshot = 1" "flagsCount exampleSnapshot = 0"
    "movesCount exampleSnapshot = 1"
    by (simp_all add: exampleSnapshot_def)
  show ?thesis
    using uncoverTile_open_tile[OF 1 2 _ 3 4, of "exampleEnv (\<lambda>k xs. xs)" "exampleProps 4 1 (1 / 4)"] 5
    by simp
qed

text \<open>
  C4 (the code differs): \<open>flagsCount\<close> should be the number of tiles in the flag state
  after every operation. \<open>uncoverInNewBoard\<close> returns at line 167, before line 173 takes
  a revealed flag off the count, when the tile holds a bomb: after a reveal of a flagged
  bomb no tile is a flag and \<open>flagsCount\<close> is still 1. The first-move loop (lines 141 to
  145) replaces the board, flags included, and keeps \<open>flagsCount\<close>: after a flag and a
  first reveal on a bomb the new board has no flag and \<open>flagsCount\<close> is still 1.
\<close>

theorem flagsCount_stale_after_bomb:
  "newGame (exampleEnv (\<lambda>k xs. xs)) (exampleProps 4 1 (1 / 4))
      [UncoverTile (0, 1), FlagTile (0, 0), UncoverTile (0, 0)]
   = Some (Inr \<lparr>gameState = gameOver, columns = 4, rows = 1,
          board = [[\<lparr>bombState = bomb, userState = hitBomb\<rparr>,
                    \<lparr>bombState = blank, userState = open\<rparr>,
                    \<lparr>bombState = blank, userState = covered\<rparr>,
                    \<lparr>bombState = blank, userState = covered\<rparr>]],
          proximities = [[0, 1, 0, 0]], bombsCount = 1, uncoveredCount = 1,
          flagsCount = 1, movesCount = 2, startedAt = None, finishedAt = Some 0\<rparr>)
   \<and> countTiles (\<lambda>item. userState item = flag)
         [[\<lparr>bombState = bomb, userState = hitBomb\<rparr>,
           \<lparr>bombState = blank, userState = open\<rparr>,
           \<lparr>bombState = blank, userState = covered\<rparr>,
           \<lparr>bombState = blank, userState = covered\<rparr>]] = 0
   \<and> newGame (exampleEnv (\<lambda>k xs. if k = 0 then xs else rev xs)) (exampleProps 4 1 (1 / 4))
      [FlagTile (0, 2), UncoverTile (0, 0)]
   = Some (Inr \<lparr>gameState = winner, columns = 4, rows = 1,
          board = [[\<lparr>bombState = blank, userState = open\<rparr>,
                    \<lparr>bombState = blank, userState = open\<rparr>,
                    \<lparr>bombState = blank, userState = open\<rparr>,
                    \<lparr>bombState = bomb, userState = covered\<rparr>]],
          proximities = [[0, 0, 1, 0]], bombsCount = 1, uncoveredCount = 3,
          flagsCount = 1, movesCount = 1, startedAt = None, finishedAt = Some 0\<rparr>)
   \<and> countTiles (\<lambda>item. userState item = flag)
         [[\<lparr>bombState = blank, userState = open\<rparr>,
           \<lparr>bombState = blank, userState = open\<rparr>,
           \<lparr>bombState = blank, userState = open\<rparr>,
           \<lparr>bombState = bomb, userState = covered\<rparr>]] = 0"
  by code_simp

text \<open>
  C5 (the code differs): \<open>uncoveredCount\<close> should never exceed
  \<open>columns * rows - bombsCount\<close>. With 1 column, 4 rows and odds 1/4, \<open>bombsCount\<close> is 1;
  the cells read the markers 0, 4, 8 and 12 (line 30, as for C1), so a shuffle that
  moves the bomb marker away from index 0 leaves the board without a bomb. The first
  reveal opens all four tiles: \<open>uncoveredCount\<close> is 4, above \<open>1 * 4 - 1\<close>, and the game
  is still playing.
\<close>

theorem uncoveredCount_exceeds_bound:
  "newGame (exampleEnv (\<lambda>k xs. rev xs)) (exampleProps 1 4 (1 / 4)) [UncoverTile (0, 0)]
   = Some (Inr \<lparr>gameState = playing, columns = 1, rows = 4,
          board = [[\<lparr>bombState = blank, userState = open\<rparr>],
                   [\<lparr>bombState = blank, userState = open\<rparr>],
                   [\<lparr>bombState = blank, userState = open\<rparr>],
                   [\<lparr>bombState = blank, userState = open\<rparr>]],
          proximities = [[0], [0], [0], [0]], bombsCount = 1, uncoveredCount = 4,
          flagsCount = 0, movesCount = 1, startedAt = None, finishedAt = None\<rparr>)
   \<and> shuffle (exampleEnv (\<lambda>k xs. rev xs)) 0 [True, False, False, False]
       = [False, False, False, True]
   \<and> (4::int) > 1 * 4 - 1"
  by code_simp

text \<open>
  C6: \<open>uncoverTile\<close> returns a snapshot only in a playable state. The snapshot keeps
  \<open>columns\<close>, \<open>rows\<close> and \<open>bombsCount\<close>, counts one more move, and counts in
  \<open>uncoveredCount\<close> the tiles that the call has opened. With \<open>b\<close> and \<open>prox\<close> the board
  and the proximities the reveal runs on (the snapshot's own after the first move, and on
  a first move at a cell without a bomb), its \<open>gameState\<close> is
  \<^item> gameOver exactly when a bomb is hit: the reveal of \<open>p\<close> on \<open>b\<close> comes to a tile
    that is not open and holds a bomb. One such tile is then marked hitBomb in the
    returned board. When the proximities are consistent with the board, this is the case
    exactly when the tile at \<open>p\<close> is not open and holds a bomb;
  \<^item> winner exactly when no bomb is hit and
    \<open>uncoveredCount + bombsCount = columns * rows\<close> in the returned snapshot;
  \<^item> playing exactly when no bomb is hit and the equality fails.

  Once the state is winner, \<open>uncoverTile\<close> changes nothing any more. After the first
  move, \<open>uncoverTile\<close> at a tile that is not open and holds a bomb returns the snapshot
  with that tile hitBomb and the state gameOver. In a playable state, \<open>uncoverTile\<close> at a
  tile that is not open, holds no bomb and has a proximity other than 0 returns the
  snapshot with that tile open and \<open>uncoveredCount + 1\<close>, in the state winner if the
  equality holds of the new count and playing if not. In a playable state, on a board and
  proximities of \<open>rows\<close> by \<open>columns\<close> cells and at a coordinate on the board,
  \<open>uncoverTile\<close> does return a snapshot when the first-move loop has nothing to do.
\<close>

theorem uncoverTile_game_state:
  "(\<forall>s'. uncoverTile env ps p s = Some (Inr (Some s')) \<longrightarrow>
      (\<exists>b prox.
          boardForMove env ps p s = Some (Inr (b, prox))
        \<and> (movesCount s \<noteq> 0 \<or> \<not> hasBombAt (board s) p \<longrightarrow> b = board s \<and> prox = proximities s)
        \<and> canPlayForGameState (gameState s)
        \<and> snapshot.columns s' = snapshot.columns s \<and> snapshot.rows s' = snapshot.rows s
        \<and> bombsCount s' = bombsCount s \<and> movesCount s' = movesCount s + 1
        \<and> uncoveredCount s' = uncoveredCount s + (int (openTiles (board s')) - int (openTiles b))
        \<and> (gameState s' = gameOver
              \<longleftrightarrow> bombHit (allDirections env) prox (snapshot.rows s) (snapshot.columns s) b p)
        \<and> (gameState s' = gameOver
              \<longleftrightarrow> (\<exists>q. bombHitAt (allDirections env) prox (snapshot.rows s) (snapshot.columns s) b p q
                      \<and> hitBombAt (board s') q))
        \<and> (proximitiesConsistent (allDirections env) prox (snapshot.rows s) (snapshot.columns s) b \<longrightarrow>
              (gameState s' = gameOver \<longleftrightarrow> bombToHit b p))
        \<and> (gameState s' = winner
              \<longleftrightarrow> \<not> bombHit (allDirections env) prox (snapshot.rows s) (snapshot.columns s) b p
                  \<and> uncoveredCount s' + bombsCount s' = snapshot.columns s' * snapshot.rows s')
        \<and> (gameState s' = playing
              \<longleftrightarrow> \<not> bombHit (allDirections env) prox (snapshot.rows s) (snapshot.columns s) b p
                  \<and> uncoveredCount s' + bombsCount s' \<noteq> snapshot.columns s' * snapshot.rows s')
        \<and> (gameState s' = winner \<longrightarrow>
              (\<forall>env' ps' p'. uncoverTile env' ps' p' s' = Some (Inr None)))))
   \<and> (\<forall>item proximity.
         canPlayForGameState (gameState s) \<and> movesCount s \<noteq> 0
         \<and> getTile (board s) p = Inr item \<and> userState item \<noteq> open \<and> bombState item = bomb
         \<and> at2 (proximities s) p = Inr proximity \<longrightarrow>
         uncoverTile env ps p s =
           Some (Inr (Some (s\<lparr>board := set2 (board s) p (item\<lparr>userState := hitBomb\<rparr>),
                               gameState := gameOver, movesCount := movesCount s + 1,
                               finishedAt := Some (now env)\<rparr>))))
   \<and> (\<forall>item proximity.
         canPlayForGameState (gameState s)
         \<and> getTile (board s) p = Inr item \<and> userState item \<noteq> open \<and> bombState item = blank
         \<and> at2 (proximities s) p = Inr proximity \<and> proximity \<noteq> Some 0 \<longrightarrow>
         uncoverTile env ps p s =
           Some (Inr (Some (s\<lparr>board := set2 (board s) p (item\<lparr>userState := open\<rparr>),
               gameState := (if uncoveredCount s + 1 + bombsCount s = snapshot.columns s * snapshot.rows s
                             then winner else playing),
               uncoveredCount := uncoveredCount s + 1,
               flagsCount := (if userState item = flag then flagsCount s - 1 else flagsCount s),
               movesCount := movesCount s + 1,
               finishedAt := (if uncoveredCount s + 1 + bombsCount s = snapshot.columns s * snapshot.rows s
                              then Some (now env) else None)\<rparr>))))
   \<and> (canPlayForGameState (gameState s)
        \<and> gridShape (snapshot.rows s) (snapshot.columns s) (board s)
        \<and> gridShape (snapshot.rows s) (snapshot.columns s) (proximities s)
        \<and> onBoard (snapshot.rows s) (snapshot.columns s) p
        \<and> (movesCount s \<noteq> 0 \<or> \<not> hasBombAt (board s) p) \<longrightarrow>
        (\<exists>s'. uncoverTile env ps p s = Some (Inr (Some s'))))"
proof -
  have general: "\<exists>b prox.
          boardForMove env ps p s = Some (Inr (b, prox))
        \<and> (movesCount s \<noteq> 0 \<or> \<not> hasBombAt (board s) p \<longrightarrow> b = board s \<and> prox = proximities s)
        \<and> canPlayForGameState (gameState s)
        \<and> snapshot.columns s' = snapshot.columns s \<and> snapshot.rows s' = snapshot.rows s
        \<and> bombsCount s' = bombsCount s \<and> movesCount s' = movesCount s + 1
        \<and> uncoveredCount s' = uncoveredCount s + (int (openTiles (board s')) - int (openTiles b))
        \<and> (gameState s' = gameOver
              \<longleftrightarrow> bombHit (allDirections env) prox (snapshot.rows s) (snapshot.columns s) b p)
        \<and> (gameState s' = gameOver
              \<longleftrightarrow> (\<exists>q. bombHitAt (allDirections env) prox (snapshot.rows s) (snapshot.columns s) b p q
                      \<and> hitBombAt (board s') q))
        \<and> (proximitiesConsistent (allDirections env) prox (snapshot.rows s) (snapshot.columns s) b \<longrightarrow>
              (gameState s' = gameOver \<longleftrightarrow> bombToHit b p))
        \<and> (gameState s' = winner
              \<longleftrightarrow> \<not> bombHit (allDirections env) prox (snapshot.rows s) (snapshot.columns s) b p
                  \<and> uncoveredCount s' + bombsCount s' = snapshot.columns s' * snapshot.rows s')
        \<and> (gameState s' = playing
              \<longleftrightarrow> \<not> bombHit (allDirections env) prox (snapshot.rows s) (snapshot.columns s) b p
                  \<and> uncoveredCount s' + bombsCount s' \<noteq> snapshot.columns s' * snapshot.rows s')
        \<and> (gameState s' = winner \<longrightarrow>
              (\<forall>env' ps' p'. uncoverTile env' ps' p' s' = Some (Inr None)))"
    if "uncoverTile env ps p s = Some (Inr (Some s'))" for s'
    using that by (rule uncoverTile_state) (blast intro: bombHitI)
  from general uncoverTile_bomb[of s p _ _ env ps] uncoverTile_no_expansion[of s p _ _ env ps]
    uncoverTile_returns_a_snapshot[of s p env ps]
  show ?thesis by blast
qed

theorem uncoverTile_game_state_witness:
  "uncoverTile (exampleEnv (\<lambda>k xs. xs)) (exampleProps 4 1 (1 / 4)) (0, 1) exampleFresh
     = Some (Inr (Some exampleSnapshot))
   \<and> (\<exists>s'. uncoverTile (exampleEnv (\<lambda>k xs. xs)) (exampleProps 4 1 (1 / 4)) (0, 2) exampleSnapshot
            = Some (Inr (Some s'))
          \<and> gameState s' = winner \<and> uncoveredCount s' = 3
          \<and> \<not> bombHit specAllDirections (proximities exampleSnapshot) 1 4 (board exampleSnapshot) (0, 2)
          \<and> uncoverTile (exampleEnv (\<lambda>k xs. xs)) (exampleProps 4 1 (1 / 4)) (0, 0) s'
              = Some (Inr None))
   \<and> gridShape 1 4 (board exampleSnapshot) \<and> gridShape 1 4 (proximities exampleSnapshot)
   \<and> onBoard 1 4 (0, 2)
   \<and> (\<exists>s'. uncoverTile (exampleEnv (\<lambda>k xs. xs)) (exampleProps 4 1 (1 / 4)) (0, 0) exampleSnapshot
            = Some (Inr (Some s'))
          \<and> gameState s' = gameOver \<and> hitBombAt (board s') (0, 0)
          \<and> bombHit specAllDirections (proximities exampleSnapshot) 1 4 (board exampleSnapshot) (0, 0)
          \<and> proximitiesConsistent specAllDirections (proximities exampleSnapshot) 1 4
                (board exampleSnapshot)
          \<and> bombToHit (board exampleSnapshot) (0, 0))"
proof -
  let ?E = "exampleEnv (\<lambda>k xs. xs)" and ?P = "exampleProps 4 1 (1 / 4)"
  note T = uncoverTile_game_state[of ?E ?P]
  have dims: "snapshot.rows exampleSnapshot = 1" "snapshot.columns exampleSnapshot = 4"
    "allDirections ?E = specAllDirections" "movesCount exampleSnapshot \<noteq> 0"
    by (simp_all add: exampleSnapshot_def exampleEnv_def)
  \<comment> \<open>a tile that does not expand\<close>
  have f1: "canPlayForGameState (gameState exampleFresh)"
    and f2: "getTile (board exampleFresh) (0, 1) = Inr \<lparr>bombState = blank, userState = covered\<rparr>"
    and f3: "at2 (proximities exampleFresh) (0, 1) = Inr (Some 1)"
    by code_simp+
  have f4: "exampleFresh\<lparr>board := set2 (board exampleFresh) (0, 1)
                  (\<lparr>bombState = blank, userState = covered\<rparr>\<lparr>userState := open\<rparr>),
               gameState := (if uncoveredCount exampleFresh + 1 + bombsCount exampleFresh
                                = snapshot.columns exampleFresh * snapshot.rows exampleFresh
                             then winner else playing),
               uncoveredCount := uncoveredCount exampleFresh + 1,
               flagsCount := (if userState \<lparr>bombState = blank, userState = covered\<rparr> = flag
                              then flagsCount exampleFresh - 1 else flagsCount exampleFresh),
               movesCount := movesCount exampleFresh + 1,
               finishedAt := (if uncoveredCount exampleFresh + 1 + bombsCount exampleFresh
                                = snapshot.columns exampleFresh * snapshot.rows exampleFresh
                              then Some (now ?E) else None)\<rparr> = exampleSnapshot"
    by code_simp
  from T[of "(0, 1)" exampleFresh, THEN conjunct2, THEN conjunct2, THEN conjunct1, rule_format,
      of "\<lparr>bombState = blank, userState = covered\<rparr>" "Some 1"] f1 f2 f3
  have "uncoverTile ?E ?P (0, 1) exampleFresh = Some (Inr (Some (exampleFresh\<lparr>board := set2 (board exampleFresh) (0, 1)
                  (\<lparr>bombState = blank, userState = covered\<rparr>\<lparr>userState := open\<rparr>),
               gameState := (if uncoveredCount exampleFresh + 1 + bombsCount exampleFresh
                                = snapshot.columns exampleFresh * snapshot.rows exampleFresh
                             then winner else playing),
               uncoveredCount := uncoveredCount exampleFresh + 1,
               flagsCount := (if userState \<lparr>bombState = blank, userState = covered\<rparr> = flag
                              then flagsCount exampleFresh - 1 else flagsCount exampleFresh),
               movesCount := movesCount exampleFresh + 1,
               finishedAt := (if uncoveredCount exampleFresh + 1 + bombsCount exampleFresh
                                = snapshot.columns exampleFresh * snapshot.rows exampleFresh
                              then Some (now ?E) else None)\<rparr>)))"
    by simp
  then have part1: "uncoverTile ?E ?P (0, 1) exampleFresh = Some (Inr (Some exampleSnapshot))"
    unfolding f4 .
  \<comment> \<open>the move that wins\<close>
  let ?w = "exampleSnapshot\<lparr>gameState := winner,
      board := [[\<lparr>bombState = bomb, userState = covered\<rparr>,
                 \<lparr>bombState = blank, userState = open\<rparr>,
                 \<lparr>bombState = blank, userState = open\<rparr>,
                 \<lparr>bombState = blank, userState = open\<rparr>]],
      uncoveredCount := 3, movesCount := 2, finishedAt := Some 0\<rparr>"
  have w1: "uncoverTile ?E ?P (0, 2) exampleSnapshot = Some (Inr (Some ?w))" by code_simp
  have w2: "gameState ?w = winner" "uncoveredCount ?w = 3" by simp_all
  from T[of "(0, 2)" exampleSnapshot, THEN conjunct1, rule_format, OF w1]
  obtain b prox where
    wb: "movesCount exampleSnapshot \<noteq> 0 \<or> \<not> hasBombAt (board exampleSnapshot) (0, 2) \<longrightarrow>
           b = board exampleSnapshot \<and> prox = proximities exampleSnapshot"
    and ww: "gameState ?w = winner
              \<longleftrightarrow> \<not> bombHit (allDirections ?E) prox (snapshot.rows exampleSnapshot)
                      (snapshot.columns exampleSnapshot) b (0, 2)
                  \<and> uncoveredCount ?w + bombsCount ?w = snapshot.columns ?w * snapshot.rows ?w"
    and wt: "gameState ?w = winner \<longrightarrow>
              (\<forall>env' ps' p'. uncoverTile env' ps' p' ?w = Some (Inr None))"
    by blast
  from wb dims(4) have "b = board exampleSnapshot" "prox = proximities exampleSnapshot" by simp_all
  with ww wt w2(1) dims(1,2,3)
  have "\<not> bombHit specAllDirections (proximities exampleSnapshot) 1 4 (board exampleSnapshot) (0, 2)
        \<and> uncoverTile ?E ?P (0, 0) ?w = Some (Inr None)"
    by simp
  with w1 w2 have part2: "\<exists>s'. uncoverTile ?E ?P (0, 2) exampleSnapshot = Some (Inr (Some s'))
          \<and> gameState s' = winner \<and> uncoveredCount s' = 3
          \<and> \<not> bombHit specAllDirections (proximities exampleSnapshot) 1 4 (board exampleSnapshot) (0, 2)
          \<and> uncoverTile ?E ?P (0, 0) s' = Some (Inr None)"
    by blast
  \<comment> \<open>the move that hits the bomb\<close>
  let ?g = "exampleSnapshot\<lparr>board := set2 (board exampleSnapshot) (0, 0)
                  (\<lparr>bombState = bomb, userState = covered\<rparr>\<lparr>userState := hitBomb\<rparr>),
               gameState := gameOver, movesCount := movesCount exampleSnapshot + 1,
               finishedAt := Some (now ?E)\<rparr>"
  have g1: "canPlayForGameState (gameState exampleSnapshot)"
    and g2: "getTile (board exampleSnapshot) (0, 0) = Inr \<lparr>bombState = bomb, userState = covered\<rparr>"
    and g3: "at2 (proximities exampleSnapshot) (0, 0) = Inr (Some 0)"
    by code_simp+
  from T[of "(0, 0)" exampleSnapshot, THEN conjunct2, THEN conjunct1, rule_format,
      of "\<lparr>bombState = bomb, userState = covered\<rparr>" "Some 0"] g1 g2 g3 dims(4)
  have g4: "uncoverTile ?E ?P (0, 0) exampleSnapshot = Some (Inr (Some ?g))" by simp
  have g5: "gameState ?g = gameOver" by simp
  have g6: "hitBombAt (board ?g) (0, 0)" by code_simp
  from T[of "(0, 0)" exampleSnapshot, THEN conjunct1, rule_format, OF g4]
  obtain b' prox' where
    gb: "movesCount exampleSnapshot \<noteq> 0 \<or> \<not> hasBombAt (board exampleSnapshot) (0, 0) \<longrightarrow>
           b' = board exampleSnapshot \<and> prox' = proximities exampleSnapshot"
    and gg: "gameState ?g = gameOver
              \<longleftrightarrow> bombHit (allDirections ?E) prox' (snapshot.rows exampleSnapshot)
                      (snapshot.columns exampleSnapshot) b' (0, 0)"
    and gc: "proximitiesConsistent (allDirections ?E) prox' (snapshot.rows exampleSnapshot)
                (snapshot.columns exampleSnapshot) b' \<longrightarrow>
              (gameState ?g = gameOver \<longleftrightarrow> bombToHit b' (0, 0))"
    by blast
  from gb dims(4) have b': "b' = board exampleSnapshot" "prox' = proximities exampleSnapshot"
    by simp_all
  have g7: "proximitiesConsistent specAllDirections (proximities exampleSnapshot) 1 4
              (board exampleSnapshot)"
    by code_simp
  from gg g5 dims(1,2,3) b'
  have g8: "bombHit specAllDirections (proximities exampleSnapshot) 1 4 (board exampleSnapshot) (0, 0)"
    by simp
  from gc g5 g7 dims(1,2,3) b'
  have g9: "bombToHit (board exampleSnapshot) (0, 0)" by simp
  from g4 g5 g6 g7 g8 g9
  have part3: "\<exists>s'. uncoverTile ?E ?P (0, 0) exampleSnapshot = Some (Inr (Some s'))
          \<and> gameState s' = gameOver \<and> hitBombAt (board s') (0, 0)
          \<and> bombHit specAllDirections (proximities exampleSnapshot) 1 4 (board exampleSnapshot) (0, 0)
          \<and> proximitiesConsistent specAllDirections (proximities exampleSnapshot) 1 4
                (board exampleSnapshot)
          \<and> bombToHit (board exampleSnapshot) (0, 0)"
    by blast
  \<comment> \<open>a snapshot is returned\<close>
  have r1: "gridShape 1 4 (board exampleSnapshot)" "gridShape 1 4 (proximities exampleSnapshot)"
    "onBoard 1 4 (0, 2)"
    by code_simp+
  from T[of "(0, 2)" exampleSnapshot, THEN conjunct2, THEN conjunct2, THEN conjunct2] g1 r1 dims
  have "\<exists>s'. uncoverTile ?E ?P (0, 2) exampleSnapshot = Some (Inr (Some s'))" by simp
  with part1 part2 part3 r1 show ?thesis by blast
qed

text \<open>
  C7: \<open>flagTile\<close> on a covered tile gives a flag and \<open>flagsCount + 1\<close>, and a second
  \<open>flagTile\<close> there gives back the snapshot it started from; on a flag it gives a
  covered tile and \<open>flagsCount - 1\<close>; on an open or hitBomb tile it changes nothing.
\<close>

theorem flagTile_toggle:
  assumes "getTile (board s) p = Inr item"
  shows "(userState item = covered \<longrightarrow>
            getTile (board (flagTile ps p s)) p = Inr (item\<lparr>userState := flag\<rparr>)
          \<and> flagsCount (flagTile ps p s) = flagsCount s + 1
          \<and> flagTile ps p (flagTile ps p s) = s)
       \<and> (userState item = flag \<longrightarrow>
            getTile (board (flagTile ps p s)) p = Inr (item\<lparr>userState := covered\<rparr>)
          \<and> flagsCount (flagTile ps p s) = flagsCount s - 1)
       \<and> (userState item = open \<or> userState item = hitBomb \<longrightarrow> flagTile ps p s = s)"
proof (intro conjI impI)
  assume c: "userState item = covered"
  let ?s1 = "flagTile ps p s"
  have s1: "?s1 = s\<lparr>board := set2 (board s) p (item\<lparr>userState := flag\<rparr>), flagsCount := flagsCount s + 1\<rparr>"
    using assms c by (simp add: flagTile_eq)
  show "getTile (board ?s1) p = Inr (item\<lparr>userState := flag\<rparr>)"
    using assms by (simp add: s1 getTile_set2_same)
  show "flagsCount ?s1 = flagsCount s + 1" by (simp add: s1)
  have g1: "getTile (board ?s1) p = Inr (item\<lparr>userState := flag\<rparr>)"
    using assms by (simp add: s1 getTile_set2_same)
  have "item\<lparr>userState := flag, userState := covered\<rparr> = item" using c by simp
  then show "flagTile ps p ?s1 = s"
    using assms by (simp add: flagTile_eq[of ps p ?s1] g1) (simp add: s1 set2_set2 set2_same)
next
  assume f: "userState item = flag"
  then show "getTile (board (flagTile ps p s)) p = Inr (item\<lparr>userState := covered\<rparr>)"
    using assms by (simp add: flagTile_eq getTile_set2_same)
  show "flagsCount (flagTile ps p s) = flagsCount s - 1"
    using assms f by (simp add: flagTile_eq)
next
  assume "userState item = open \<or> userState item = hitBomb"
  then show "flagTile ps p s = s" using assms by (auto simp: flagTile_eq)
qed


theorem flagTile_toggle_witness:
  "getTile (board exampleSnapshot) (0, 2) = Inr \<lparr>bombState = blank, userState = covered\<rparr>
   \<and> getTile (board (flagTile (exampleProps 4 1 (1 / 4)) (0, 2) exampleSnapshot)) (0, 2)
       = Inr \<lparr>bombState = blank, userState = flag\<rparr>
   \<and> flagsCount (flagTile (exampleProps 4 1 (1 / 4)) (0, 2) exampleSnapshot) = 1
   \<and> flagTile (exampleProps 4 1 (1 / 4)) (0, 2)
        (flagTile (exampleProps 4 1 (1 / 4)) (0, 2) exampleSnapshot) = exampleSnapshot"
proof -
  have g: "getTile (board exampleSnapshot) (0, 2) = Inr \<lparr>bombState = blank, userState = covered\<rparr>"
    by (simp add: exampleSnapshot_def getTile_def at2_def nth_opt_def)
  have f: "flagsCount exampleSnapshot = 0" by (simp add: exampleSnapshot_def)
  show ?thesis
    using flagTile_toggle[OF g, of "exampleProps 4 1 (1 / 4)"] g f by simp
qed

text \<open>
  C8: in a game state outside fresh, playing and beginningMove (that is gameOver, winner
  or restarting), \<open>uncoverTile\<close> returns no change.
\<close>

theorem uncoverTile_not_playable:
  assumes "gameState s = gameOver \<or> gameState s = winner \<or> gameState s = restarting"
  shows "uncoverTile env ps p s = Some (Inr None)"
  using assms by (auto simp: uncoverTile_def canPlayForGameState_def)

theorem uncoverTile_not_playable_witness:
  "gameState (exampleSnapshot\<lparr>gameState := winner\<rparr>) = winner
   \<and> uncoverTile (exampleEnv (\<lambda>k xs. xs)) (exampleProps 4 1 (1 / 4)) (0, 2)
        (exampleSnapshot\<lparr>gameState := winner\<rparr>) = Some (Inr None)"
  using uncoverTile_not_playable[of "exampleSnapshot\<lparr>gameState := winner\<rparr>"
      "exampleEnv (\<lambda>k xs. xs)" "exampleProps 4 1 (1 / 4)" "(0, 2)"]
  by simp

text \<open>
  C9: lines 148 to 186, run on a store that holds the snapshot's board at \<open>a\<close>, leave
  every object of that store as it was, whatever the outcome: the board read at \<open>a\<close>
  after the call is the board read before. The board they work on is the one \<open>copyBoard\<close>
  made: an array that was not in the store, of rows that were not in the store, holding
  the tiles of the original. When they return, the board at that array is the
  \<open>newBoard\<close> that \<open>uncoverInNewBoard\<close> computes on values, with the same counters, and
  when they throw, \<open>uncoverInNewBoard\<close> throws the same.
\<close>

theorem uncover_leaves_the_board_alone:
  assumes "readBoard h a = Some b"
    and "uncoverOnBoardS fuel dirs prox rws cls p uncovered flags a h = (st, cl)"
  shows "extends h (store cl)
       \<and> readBoard (store cl) a = Some b
       \<and> freshBoard h (store cl) (newBoardRef cl)
       \<and> (\<exists>h1. copyBoardS h a = (Inr (newBoardRef cl), h1)
                \<and> readBoard h1 (newBoardRef cl) = Some b)
       \<and> (st = Done \<longrightarrow>
            (\<exists>b'. readBoard (store cl) (newBoardRef cl) = Some b'
                \<and> uncoverInNewBoard dirs prox rws cls p
                      \<lparr>newBoard = copyBoard b, gameOverVar = False,
                       uncoveredCountVar = uncovered, flagsCountVar = flags\<rparr>
                    = Inr \<lparr>newBoard = b', gameOverVar = gameOverS cl,
                           uncoveredCountVar = uncoveredCountS cl, flagsCountVar = flagsCountS cl\<rparr>))
       \<and> (\<forall>e. st = Threw e \<longrightarrow>
            uncoverInNewBoard dirs prox rws cls p
              \<lparr>newBoard = copyBoard b, gameOverVar = False,
               uncoveredCountVar = uncovered, flagsCountVar = flags\<rparr> = Inl e)"
  using uncoverOnBoardS_frame[OF assms] uncoverOnBoardS_simulates[OF assms]
  by simp

theorem uncover_leaves_the_board_alone_witness:
  "readBoard exampleStore 1 = Some (board exampleSnapshot)
   \<and> (\<exists>cl. uncoverOnBoardS 5 specAllDirections (proximities exampleSnapshot) 1 4 (0, 2) 1 0 1 exampleStore
            = (Done, cl)
          \<and> extends exampleStore (store cl)
          \<and> readBoard (store cl) 1 = Some (board exampleSnapshot)
          \<and> newBoardRef cl = 3
          \<and> readBoard (store cl) 3
              = Some [[\<lparr>bombState = bomb, userState = covered\<rparr>,
                       \<lparr>bombState = blank, userState = open\<rparr>,
                       \<lparr>bombState = blank, userState = open\<rparr>,
                       \<lparr>bombState = blank, userState = open\<rparr>]])"
proof -
  let ?cl = "\<lparr>store = exampleStore @
        [Cells [\<lparr>bombState = bomb, userState = covered\<rparr>,
                \<lparr>bombState = blank, userState = open\<rparr>,
                \<lparr>bombState = blank, userState = open\<rparr>,
                \<lparr>bombState = blank, userState = open\<rparr>], Rows [2]],
      newBoardRef = 3, gameOverS = False, uncoveredCountS = 3, flagsCountS = 0\<rparr>"
  have 1: "readBoard exampleStore 1 = Some (board exampleSnapshot)" by code_simp
  have 2: "uncoverOnBoardS 5 specAllDirections (proximities exampleSnapshot) 1 4 (0, 2) 1 0 1 exampleStore
            = (Done, ?cl)" by code_simp
  have 3: "readBoard (store ?cl) 3
              = Some [[\<lparr>bombState = bomb, userState = covered\<rparr>,
                       \<lparr>bombState = blank, userState = open\<rparr>,
                       \<lparr>bombState = blank, userState = open\<rparr>,
                       \<lparr>bombState = blank, userState = open\<rparr>]]" by code_simp
  from uncover_leaves_the_board_alone[OF 1 2]
  have "extends exampleStore (store ?cl) \<and> readBoard (store ?cl) 1 = Some (board exampleSnapshot)"
    by blast
  with 1 2 3 show ?thesis by (intro conjI exI[of _ ?cl]) simp_all
qed

text \<open>
  C10: when the proximities are consistent with the board the reveal runs on, only the
  targeted cell can become hitBomb and the game is over only if the targeted cell holds a
  bomb; the loop over the neighbours of a cell of proximity 0, on any board with the same
  bombs and entered with \<open>gameOver\<close> false, ends with \<open>gameOver\<close> false, so no call it
  makes meets a bomb or finds \<open>gameOver\<close> set.
\<close>

theorem only_the_target_can_hit_a_bomb:
  assumes "boardForMove env ps p s = Some (Inr (b, prox))"
    and "proximitiesConsistent (allDirections env) prox (snapshot.rows s) (snapshot.columns s) b"
    and "uncoverTile env ps p s = Some (Inr (Some s'))"
  shows "(\<forall>q. q \<noteq> p \<and> hitBombAt (board s') q \<longrightarrow> hitBombAt b q)
       \<and> (gameState s' = gameOver \<longrightarrow> hasBombAt b p)
       \<and> (\<forall>cl q fs cl'.
             bombLayout (newBoard cl) = bombLayout b \<and> \<not> gameOverVar cl
             \<and> at2 prox q = Inr (Some 0) \<and> set fs \<subseteq> set (allDirections env)
             \<and> forEachDirection (allDirections env) prox (snapshot.rows s) (snapshot.columns s) q fs cl
                 = Inr cl'
             \<longrightarrow> \<not> gameOverVar cl')"
proof (intro conjI allI impI)
  from assms(3) obtain bp cl where
    bp: "boardForMove env ps p s = Some (Inr bp)"
    and u: "uncoverInNewBoard (allDirections env) (snd bp) (snapshot.rows s) (snapshot.columns s) p
           \<lparr>newBoard = copyBoard (fst bp), gameOverVar = False,
            uncoveredCountVar = uncoveredCount s, flagsCountVar = flagsCount s\<rparr> = Inr cl"
    and s': "s' = uncoverResult env s (snd bp) cl"
    by (rule uncoverTile_returns)
  from bp assms(1) have [simp]: "bp = (b, prox)" by simp
  note t = uncover_target[OF _ _ u, simplified, OF assms(2)]
  { fix q assume "q \<noteq> p \<and> hitBombAt (board s') q"
    with t show "hitBombAt b q" by (cases q) (auto simp: s') }
  { assume "gameState s' = gameOver"
    with t show "hasBombAt b p" by (simp add: s' split: if_splits) }
next
  fix cl q fs cl'
  assume a: "bombLayout (newBoard cl) = bombLayout b \<and> \<not> gameOverVar cl
             \<and> at2 prox q = Inr (Some 0) \<and> set fs \<subseteq> set (allDirections env)
             \<and> forEachDirection (allDirections env) prox (snapshot.rows s) (snapshot.columns s) q fs cl
                 = Inr cl'"
  then have c: "proximitiesConsistent (allDirections env) prox (snapshot.rows s) (snapshot.columns s) (newBoard cl)"
    using assms(2) proximitiesConsistent_layout[of "newBoard cl" b] by simp
  from a uncover_no_bomb(2)[OF c, of q fs cl'] show "\<not> gameOverVar cl'" by simp
qed

theorem only_the_target_can_hit_a_bomb_witness:
  "boardForMove (exampleEnv (\<lambda>k xs. xs)) (exampleProps 4 1 (1 / 4)) (0, 2) exampleSnapshot
     = Some (Inr (board exampleSnapshot, proximities exampleSnapshot))
   \<and> proximitiesConsistent (allDirections (exampleEnv (\<lambda>k xs. xs))) (proximities exampleSnapshot)
        1 4 (board exampleSnapshot)
   \<and> (\<exists>s'. uncoverTile (exampleEnv (\<lambda>k xs. xs)) (exampleProps 4 1 (1 / 4)) (0, 2) exampleSnapshot
            = Some (Inr (Some s'))
          \<and> \<not> hitBombAt (board s') (0, 0) \<and> gameState s' \<noteq> gameOver)"
proof -
  let ?E = "exampleEnv (\<lambda>k xs. xs)" and ?P = "exampleProps 4 1 (1 / 4)"
  let ?s' = "exampleSnapshot\<lparr>gameState := winner,
      board := [[\<lparr>bombState = bomb, userState = covered\<rparr>,
                 \<lparr>bombState = blank, userState = open\<rparr>,
                 \<lparr>bombState = blank, userState = open\<rparr>,
                 \<lparr>bombState = blank, userState = open\<rparr>]],
      uncoveredCount := 3, movesCount := 2, finishedAt := Some 0\<rparr>"
  have 1: "boardForMove ?E ?P (0, 2) exampleSnapshot
     = Some (Inr (board exampleSnapshot, proximities exampleSnapshot))"
    by code_simp
  have 2: "proximitiesConsistent (allDirections ?E) (proximities exampleSnapshot)
        (snapshot.rows exampleSnapshot) (snapshot.columns exampleSnapshot) (board exampleSnapshot)"
    by code_simp
  have two: "proximitiesConsistent (allDirections ?E) (proximities exampleSnapshot)
        1 4 (board exampleSnapshot)"
    by code_simp
  have 3: "uncoverTile ?E ?P (0, 2) exampleSnapshot = Some (Inr (Some ?s'))"
    by code_simp
  have 4: "\<not> hitBombAt (board exampleSnapshot) (0, 0)" "\<not> hasBombAt (board exampleSnapshot) (0, 2)"
    by code_simp+
  from only_the_target_can_hit_a_bomb[OF 1 2 3] 4
  have "\<not> hitBombAt (board ?s') (0, 0) \<and> gameState ?s' \<noteq> gameOver" by auto
  with 1 two 3 show ?thesis by blast
qed

end
